theory Spec2Isabelle
  imports Main "HOL-Library.Word"
begin

unbundle bit_operations_syntax

section \<open>Buffers\<close>

text \<open>
  A Node \<open>Buffer\<close> is a sequence of bytes. Reading it at an index that is out of range
  gives \<open>undefined\<close>, which the bitwise operators of the source (\<open><<\<close>, \<open>&\<close>, \<open>|\<close>)
  turn into 0. \<open>bufAt\<close> is that read, for the places where the source applies a bitwise
  operator to the byte it has read.
\<close>

type_synonym byte = "8 word"
type_synonym buffer = "byte list"

definition bufAt :: "buffer \<Rightarrow> nat \<Rightarrow> byte" where
  "bufAt buf i = (if i < length buf then buf ! i else 0)"

text \<open>\<open>buf.subarray(a, b)\<close> for \<open>0 \<le> a \<le> b\<close>: the bytes from a up to b, clipped to the buffer.\<close>

definition subarray :: "buffer \<Rightarrow> nat \<Rightarrow> nat \<Rightarrow> buffer" where
  "subarray buf a b = take (b - a) (drop a buf)"

section \<open>CRC engine (crc.ts)\<close>

definition POLY :: "16 word" where "POLY = 0x8005"
definition BITF :: "16 word" where "BITF = 0x8000"

text \<open>\<open>((buffer[p] << 8) | (buffer[p + 1] & 0xff)) & 0xffff\<close>\<close>

definition crcWord :: "buffer \<Rightarrow> nat \<Rightarrow> 16 word" where
  "crcWord buffer p = push_bit 8 (ucast (bufAt buffer p)) OR ucast (bufAt buffer (p + 1))"

text \<open>One pass of the inner loop \<open>for (j = 0; j < 16; j++)\<close>, on the pair (tmp, val).\<close>

definition crcBit :: "16 word \<times> 16 word \<Rightarrow> 16 word \<times> 16 word" where
  "crcBit tv =
    (let tmp = fst tv; val = snd tv;
         tmp' =
           (if tmp AND BITF \<noteq> 0 then
              (let t1 = push_bit 1 tmp;
                   t2 = (if val AND BITF \<noteq> 0 then t1 + 1 else t1)
               in t2 XOR POLY)
            else
              (let t1 = push_bit 1 tmp
               in if val AND BITF \<noteq> 0 then t1 + 1 else t1))
     in (tmp', push_bit 1 val))"

fun crcBits :: "nat \<Rightarrow> 16 word \<times> 16 word \<Rightarrow> 16 word \<times> 16 word" where
  "crcBits 0 tv = tv"
| "crcBits (Suc j) tv = crcBits j (crcBit tv)"

text \<open>
  The outer loop \<open>for (i = floor(count / 2); i > 0; i--)\<close>, with the read pointer and
  the accumulator as its state.
\<close>

fun crcLoop :: "buffer \<Rightarrow> nat \<Rightarrow> nat \<Rightarrow> 16 word \<Rightarrow> 16 word" where
  "crcLoop buffer 0 ptr tmp = tmp"
| "crcLoop buffer (Suc k) ptr tmp =
    (let i = Suc k;
         count = length buffer;
         val = (if i > 1 then crcWord buffer ptr
                else if count mod 2 = 1 then push_bit 8 (ucast (bufAt buffer (count - 1)))
                else 0);
         ptr' = (if i > 1 then ptr + 2 else ptr)
     in crcLoop buffer k ptr' (fst (crcBits 16 (tmp, val))))"

definition crc :: "buffer \<Rightarrow> 16 word" where
  "crc buffer =
    (let count = length buffer;
         tmp = crcWord buffer 0
     in if count > 2 then crcLoop buffer (count div 2) 2 tmp else tmp)"

section \<open>Message frames (SiMessage.ts)\<close>

definition STX :: byte where "STX = 0x02"
definition ETX :: byte where "ETX = 0x03"
definition ACK :: byte where "ACK = 0x06"
definition WAKEUP :: byte where "WAKEUP = 0xff"
definition GET_SYSTEM_VALUE :: byte where "GET_SYSTEM_VALUE = 0x83"
definition SET_MASTER_MODE :: byte where "SET_MASTER_MODE = 0xf0"
definition DIRECT_MODE :: byte where "DIRECT_MODE = 0x4d"
definition BEEP :: byte where "BEEP = 0xf9"
definition GET_SI_CARD_5 :: byte where "GET_SI_CARD_5 = 0xb1"

datatype SiMessage = SiMessage (sequence: buffer)

text \<open>
  The accessors of the class read \<open>_sequence[i]\<close> without a bitwise operator, so a read
  that is out of range is \<open>undefined\<close>: \<open>None\<close> here.
\<close>

definition msgByteAt :: "SiMessage \<Rightarrow> nat \<Rightarrow> byte option" where
  "msgByteAt msg i = (if i < length (sequence msg) then Some (sequence msg ! i) else None)"

definition commandByte :: "SiMessage \<Rightarrow> byte option" where
  "commandByte msg = msgByteAt msg 1"

definition startByte :: "SiMessage \<Rightarrow> byte option" where
  "startByte msg = msgByteAt msg 0"

definition endByte :: "SiMessage \<Rightarrow> byte option" where
  "endByte msg =
    (if sequence msg = [] then None else msgByteAt msg (length (sequence msg) - 1))"

text \<open>
  \<open>data\<close> is \<open>_sequence.subarray(1, 1 + cmdLength)\<close> with
  \<open>cmdLength = _sequence.length - 4\<close>. For a sequence shorter than 4 bytes the end index
  is zero or negative; \<open>subarray\<close> counts a negative index from the end of the buffer and
  clips it at 0, and an end before the start gives the empty buffer.
\<close>

definition msgData :: "SiMessage \<Rightarrow> buffer" where
  "msgData msg =
    (let len = length (sequence msg)
     in if len < 4 then [] else subarray (sequence msg) 1 (1 + (len - 4)))"

text \<open>
  \<open>((_sequence[i - 3] << 8) & 0xffff) | (_sequence[i - 2] & 0xff)\<close>; a negative index
  reads \<open>undefined\<close>, which the operators turn into 0.
\<close>

definition extractedCRC :: "SiMessage \<Rightarrow> 16 word" where
  "extractedCRC msg =
    (let i = length (sequence msg);
         hi = (if 3 \<le> i then bufAt (sequence msg) (i - 3) else 0);
         lo = (if 2 \<le> i then bufAt (sequence msg) (i - 2) else 0)
     in push_bit 8 (ucast hi) OR ucast lo)"

definition computedCRC :: "SiMessage \<Rightarrow> 16 word" where
  "computedCRC msg = crc (msgData msg)"

definition validCRC :: "SiMessage \<Rightarrow> bool" where
  "validCRC msg = (computedCRC msg = extractedCRC msg)"

definition valid :: "SiMessage \<Rightarrow> bool" where
  "valid msg = (startByte msg = Some STX \<and> endByte msg = Some ETX \<and> validCRC msg)"

definition check :: "SiMessage \<Rightarrow> byte \<Rightarrow> bool" where
  "check msg command = (valid msg \<and> commandByte msg = Some command)"

text \<open>\<open>toString\<close>: the bytes as two upper-case hexadecimal digits each, joined by spaces.\<close>

definition hexDigit :: "nat \<Rightarrow> char" where
  "hexDigit d = (''0123456789ABCDEF'') ! (d mod 16)"

definition hexByte :: "byte \<Rightarrow> string" where
  "hexByte b = [hexDigit (unat b div 16), hexDigit (unat b mod 16)]"

fun joinWith :: "string \<Rightarrow> string list \<Rightarrow> string" where
  "joinWith sep [] = []"
| "joinWith sep [x] = x"
| "joinWith sep (x # y # ys) = x @ sep @ joinWith sep (y # ys)"

definition toString :: "SiMessage \<Rightarrow> string" where
  "toString msg = joinWith '' '' (map hexByte (sequence msg))"

definition STARTUP_SEQUENCE :: SiMessage where
  "STARTUP_SEQUENCE =
    SiMessage [WAKEUP, STX, STX, SET_MASTER_MODE, 0x01, DIRECT_MODE, 0x6d, 0x0a, ETX]"

definition GET_PROTOCOL_CONFIGURATION :: SiMessage where
  "GET_PROTOCOL_CONFIGURATION =
    SiMessage [STX, GET_SYSTEM_VALUE, 0x02, 0x74, 0x01, 0x04, 0x14, ETX]"

definition GET_CARDBLOCKS_CONFIGURATION :: SiMessage where
  "GET_CARDBLOCKS_CONFIGURATION =
    SiMessage [STX, GET_SYSTEM_VALUE, 0x02, 0x33, 0x01, 0x16, 0x11, ETX]"

definition BEEP_TWICE :: SiMessage where
  "BEEP_TWICE = SiMessage [STX, BEEP, 0x01, 0x02, 0x14, 0x0a, ETX]"

section \<open>Card data frames (SiDataFrame.ts)\<close>

text \<open>
  The numbers of the source are JavaScript numbers: IEEE-754 binary64 values. The byte
  counts, offsets and card fields stay far below \<open>2^53\<close>, where binary64 holds every
  integer and adds exactly; they are \<open>int\<close> here. The timestamps are added to a caller's
  zero hour in a loop, so for them the rounding of the addition is part of the model:
  a \<open>number\<close> is a binary64 value that is an integer, or an infinity.
\<close>

datatype number = Finite int | PosInfinity | NegInfinity

text \<open>The number of binary digits of a positive integer.\<close>

function bitLength :: "int \<Rightarrow> nat" where
  "bitLength n = (if n \<le> 0 then 0 else Suc (bitLength (n div 2)))"
  by pat_completeness auto
termination
  by (relation "measure nat") auto

declare bitLength.simps [simp del]

text \<open>
  The binary64 value nearest to an integer: the integer itself when 53 binary digits hold
  it, and otherwise the nearest multiple of \<open>2^e\<close>, where \<open>e\<close> is the number of digits
  beyond 53; of two nearest multiples the one with the even quotient (round to nearest,
  ties to even).
\<close>

definition roundDouble :: "int \<Rightarrow> int" where
  "roundDouble x =
    (let n = \<bar>x\<bar>;
         e = bitLength n - 53;
         q = n div 2 ^ e;
         r = n mod 2 ^ e;
         rounded =
           (if e = 0 then n
            else if 2 * r > 2 ^ e \<or> (2 * r = 2 ^ e \<and> odd q) then (q + 1) * 2 ^ e
            else q * 2 ^ e)
     in if x < 0 then - rounded else rounded)"

text \<open>
  The number that an operation with the exact integer result \<open>x\<close> gives: the rounded
  value, or an infinity when the rounded value is beyond the largest binary64 value.
\<close>

definition toNumber :: "int \<Rightarrow> number" where
  "toNumber x =
    (let r = roundDouble x
     in if r \<ge> 2 ^ 1024 then PosInfinity
        else if r \<le> - (2 ^ 1024) then NegInfinity
        else Finite r)"

text \<open>\<open>a + s\<close> and \<open>a < b\<close> on numbers; \<open>s\<close> is an integer that binary64 holds.\<close>

definition numAdd :: "number \<Rightarrow> int \<Rightarrow> number" where
  "numAdd a s =
    (case a of
       Finite x \<Rightarrow> toNumber (x + s)
     | PosInfinity \<Rightarrow> PosInfinity
     | NegInfinity \<Rightarrow> NegInfinity)"

definition numLess :: "number \<Rightarrow> number \<Rightarrow> bool" where
  "numLess a b =
    (case (a, b) of
       (Finite x, Finite y) \<Rightarrow> x < y
     | (Finite x, PosInfinity) \<Rightarrow> True
     | (Finite x, NegInfinity) \<Rightarrow> False
     | (PosInfinity, _) \<Rightarrow> False
     | (NegInfinity, NegInfinity) \<Rightarrow> False
     | (NegInfinity, _) \<Rightarrow> True)"

record SiPunch =
  code :: int
  timestampMs :: number

record SiCardData =
  cardNumber :: string
  cardSeries :: string
  startTime :: number
  finishTime :: number
  checkTime :: number
  punchCount :: int
  punches :: "SiPunch list"

definition NO_TIME :: number where "NO_TIME = Finite (-1)"
definition NO_SI_TIME :: int where "NO_SI_TIME = 1000 * 0xeeee"
definition TWELVE_HOURS :: int where "TWELVE_HOURS = 1000 * 12 * 3600"
definition ONE_DAY :: int where "ONE_DAY = 2 * TWELVE_HOURS"

definition byteAt :: "buffer \<Rightarrow> nat \<Rightarrow> int" where
  "byteAt data i = uint (bufAt data i)"

definition wordAt :: "buffer \<Rightarrow> nat \<Rightarrow> int" where
  "wordAt data i = push_bit 8 (byteAt data i) OR byteAt data (i + 1)"

definition timestampAt :: "buffer \<Rightarrow> nat \<Rightarrow> int" where
  "timestampAt data i = 1000 * wordAt data i"

text \<open>
  The loop of \<open>advanceTimePast\<close>, \<open>while (newTimestamp < baseTime) newTimestamp += stepTime\<close>.
  Nothing in the source bounds the number of passes: a step that is not positive never
  reaches the base, and neither does a step that the rounded addition absorbs. So the
  loop is a partial function: \<open>None\<close> is the loop that never returns.
\<close>

partial_function (option) advanceLoop :: "number \<Rightarrow> number \<Rightarrow> int \<Rightarrow> number option" where
  "advanceLoop newTimestamp baseTime stepTime =
    (if numLess newTimestamp baseTime
     then advanceLoop (numAdd newTimestamp stepTime) baseTime stepTime
     else Some newTimestamp)"

declare advanceLoop.simps [code]

text \<open>
  \<open>advanceTimePast\<close>. The timestamp and the step are integers that binary64 holds; the
  timestamp is a time read from a card and the step one of the constants
  \<open>TWELVE_HOURS\<close> and \<open>ONE_DAY\<close> in every call of the source. The difference
  \<open>refTime - 3600000\<close> is the rounded sum of \<open>refTime\<close> and \<open>-3600000\<close>.
\<close>

definition advanceTimePast :: "int \<Rightarrow> number \<Rightarrow> int \<Rightarrow> number option" where
  "advanceTimePast timestamp refTime stepTime =
    (if timestamp = NO_SI_TIME then Some NO_TIME
     else if refTime = NO_TIME then Some (Finite timestamp)
     else
       (let baseTime = numAdd refTime (- 3600000)
        in advanceLoop (Finite timestamp) baseTime stepTime))"

definition newRefTime :: "number \<Rightarrow> number \<Rightarrow> number" where
  "newRefTime refTime punchTime = (if punchTime \<noteq> NO_TIME then punchTime else refTime)"

definition SI5_TIMED_PUNCHES :: int where "SI5_TIMED_PUNCHES = 30"

text \<open>
  The first loop of \<open>parseSi5\<close>, \<open>for (i = 0; i < nbTimed; i++)\<close>: its state is the list
  of punches pushed so far and the running reference time \<open>refTime\<close>; both are returned.
\<close>

function si5TimedLoop ::
  "buffer \<Rightarrow> int \<Rightarrow> nat \<Rightarrow> SiPunch list \<Rightarrow> number \<Rightarrow> (SiPunch list \<times> number) option"
  where
  "si5TimedLoop data nbTimed i ps refTime =
    (if int i < nbTimed then
       (let offset = 0x21 + (i div 5) * 0x10 + (i mod 5) * 0x03;
            c = byteAt data offset;
            rawTime = timestampAt data (offset + 1)
        in case advanceTimePast rawTime refTime TWELVE_HOURS of
             None \<Rightarrow> None
           | Some punchTime \<Rightarrow>
               si5TimedLoop data nbTimed (i + 1)
                 (ps @ [\<lparr>code = c, timestampMs = punchTime\<rparr>])
                 (newRefTime refTime punchTime))
     else Some (ps, refTime))"
  by pat_completeness auto
termination
  by (relation "measure (\<lambda>(data, nbTimed, i, ps, refTime). nat (nbTimed - int i))") auto

declare si5TimedLoop.simps [simp del]

text \<open>The second loop, \<open>for (i = 0; i < nbPunches - SI5_TIMED_PUNCHES; i++)\<close>.\<close>

function si5UntimedLoop :: "buffer \<Rightarrow> int \<Rightarrow> nat \<Rightarrow> SiPunch list \<Rightarrow> SiPunch list" where
  "si5UntimedLoop data nbPunches i ps =
    (if int i < nbPunches - SI5_TIMED_PUNCHES then
       (let c = byteAt data (0x20 + i * 0x10)
        in si5UntimedLoop data nbPunches (i + 1) (ps @ [\<lparr>code = c, timestampMs = NO_TIME\<rparr>]))
     else ps)"
  by pat_completeness auto
termination
  by (relation "measure (\<lambda>(data, nbPunches, i, ps). nat (nbPunches - SI5_TIMED_PUNCHES - int i))")
    auto

declare si5UntimedLoop.simps [simp del]

text \<open>\<open>Number.prototype.toString\<close> on an integer: its decimal digits.\<close>

function digitsOf :: "int \<Rightarrow> string" where
  "digitsOf n =
    (if n < 10 then [(''0123456789'') ! nat n]
     else digitsOf (n div 10) @ [(''0123456789'') ! nat (n mod 10)])"
  by pat_completeness auto
termination
  by (relation "measure nat") auto

declare digitsOf.simps [simp del]

definition numberToString :: "int \<Rightarrow> string" where
  "numberToString n = (if n < 0 then ''-'' @ digitsOf (- n) else digitsOf n)"

text \<open>The raw fields that \<open>parseSi5\<close> reads from the data block of the message.\<close>

definition si5Data :: "SiMessage \<Rightarrow> buffer" where
  "si5Data message = subarray (sequence message) 5 133"

definition si5NbPunches :: "SiMessage \<Rightarrow> int" where
  "si5NbPunches message = byteAt (si5Data message) 0x17 - 1"

definition si5RawFinish :: "SiMessage \<Rightarrow> int" where
  "si5RawFinish message = timestampAt (si5Data message) 0x15"

definition parseSi5 :: "SiMessage \<Rightarrow> number \<Rightarrow> SiCardData option" where
  "parseSi5 message zerohour =
    (let data = si5Data message;
         siNumber0 = wordAt data 0x04;
         cns = byteAt data 0x06;
         siNumber = (if cns > 0x01 then siNumber0 + cns * 100000 else siNumber0);
         nbPunches = si5NbPunches message;
         rawStart = timestampAt data 0x13;
         rawFinish = si5RawFinish message;
         rawCheck = timestampAt data 0x19
     in case advanceTimePast rawStart zerohour TWELVE_HOURS of
          None \<Rightarrow> None
        | Some startT \<Rightarrow>
     (case advanceTimePast rawCheck zerohour TWELVE_HOURS of
          None \<Rightarrow> None
        | Some checkT \<Rightarrow>
     (let nbTimed = min nbPunches SI5_TIMED_PUNCHES
      in case si5TimedLoop data nbTimed 0 [] (newRefTime zerohour startT) of
          None \<Rightarrow> None
        | Some (timed, refTime) \<Rightarrow>
     (let allPunches = si5UntimedLoop data nbPunches 0 timed;
          lastTimedRef =
            (if nbTimed > 0 then
               newRefTime (newRefTime zerohour startT)
                 (timestampMs (allPunches ! nat (nbTimed - 1)))
             else newRefTime zerohour startT)
      in case advanceTimePast rawFinish lastTimedRef TWELVE_HOURS of
          None \<Rightarrow> None
        | Some finishT \<Rightarrow>
            Some \<lparr>cardNumber = numberToString siNumber,
                  cardSeries = ''SiCard 5'',
                  startTime = startT,
                  finishTime = finishT,
                  checkTime = checkT,
                  punchCount = nbPunches,
                  punches = allPunches\<rparr>))))"

text \<open>
  The running reference time of \<open>parseSi5\<close> once the loop over the timed punches is
  done: the local variable \<open>refTime\<close>, seeded with \<open>newRefTime(zerohour, startTime)\<close>
  and replaced by the time of each timed punch that has one.
\<close>

definition si5RunningRef :: "SiMessage \<Rightarrow> number \<Rightarrow> number option" where
  "si5RunningRef message zh =
    (let data = si5Data message;
         nbTimed = min (si5NbPunches message) SI5_TIMED_PUNCHES
     in case advanceTimePast (timestampAt data 0x13) zh TWELVE_HOURS of
          None \<Rightarrow> None
        | Some startT \<Rightarrow>
            map_option snd (si5TimedLoop data nbTimed 0 [] (newRefTime zh startT)))"

text \<open>
  A bound used for the times of a Card-5 readout: a finite time that is not below
  \<open>-2^52\<close> and exceeds \<open>2^52\<close> by no more than the largest time a card holds plus \<open>i\<close>
  steps of twelve hours. Below \<open>2^53\<close> the additions of the decoder are exact.
\<close>

definition boundedRef :: "nat \<Rightarrow> number \<Rightarrow> bool" where
  "boundedRef i x =
    (case x of
       Finite r \<Rightarrow> - (2 ^ 52) \<le> r \<and> r \<le> 2 ^ 52 + 65535000 + int i * 43200000
     | PosInfinity \<Rightarrow> False
     | NegInfinity \<Rightarrow> False)"

text \<open>
  Two Card-5 responses with a correct CRC. In the first the whole data block is zero, so
  the byte at \<open>0x17\<close> is 0. The second has no start and no check time, the finish time
  1000 s and two punches: control 31 at 40000 s and control 32 without a time.
\<close>

definition si5_blank :: SiMessage where
  "si5_blank =
    SiMessage ([0x02, 0xB1, 0x82, 0x00, 0x01] @ replicate 128 0 @ [0xA5, 0xF1, 0x03])"

definition si5_last_punch_untimed :: SiMessage where
  "si5_last_punch_untimed =
    SiMessage ([0x02, 0xB1, 0x82, 0x00, 0x01]
      @ replicate 0x13 0 @ [0xEE, 0xEE, 0x03, 0xE8, 0x03, 0x00, 0xEE, 0xEE] @ replicate 6 0
      @ [31, 0x9C, 0x40, 32, 0xEE, 0xEE] @ replicate 89 0
      @ [0xB2, 0x17, 0x03])"

section \<open>Protocol driver (SiDriver.ts)\<close>

datatype direction = SEND | READ | INFO | ERROR

datatype CommStatus =
  STARTING | ON | READY | PROCESSING | PROCESSING_ERROR | OFF | FATAL_ERROR

datatype event =
  Status CommStatus
| Log direction string
| CardRead SiCardData

datatype error =
  TimeoutError
| InvalidMessageError SiMessage byte
| Error string

text \<open>
  The message queue: the frames waiting to be taken, the number of takers waiting for a
  frame, and the frames that \<open>push\<close> handed straight to a waiting taker.
\<close>

record SiMessageQueue =
  queue :: "SiMessage list"
  waiters :: nat
  resolved :: "SiMessage list"

definition push :: "SiMessageQueue \<Rightarrow> SiMessage \<Rightarrow> SiMessageQueue" where
  "push q msg =
    (if waiters q > 0 then q\<lparr>waiters := waiters q - 1, resolved := resolved q @ [msg]\<rparr>
     else q\<lparr>queue := queue q @ [msg]\<rparr>)"

definition EXTENDED_PROTOCOL_MASK :: byte where "EXTENDED_PROTOCOL_MASK = 1"
definition HANDSHAKE_MODE_MASK :: byte where "HANDSHAKE_MODE_MASK = 4"
definition CONFIG_CHECK_MASK :: byte where
  "CONFIG_CHECK_MASK = EXTENDED_PROTOCOL_MASK OR HANDSHAKE_MODE_MASK"

text \<open>
  The state of the driver. \<open>emitted\<close> is the sequence of events given to the listeners,
  \<open>written\<close> the sequence of buffers written to the port.
\<close>

record SiDriver =
  messageQueue :: SiMessageQueue
  running :: bool
  zerohour :: number
  si6_192PunchesMode :: bool
  accBuffer :: buffer
  accSize :: nat
  lastDataTime :: int
  emitted :: "event list"
  written :: "buffer list"

definition TIMEOUT_DELAY :: int where "TIMEOUT_DELAY = 500"

text \<open>The driver as its constructor leaves it, with an empty queue and no taker waiting.\<close>

definition newSiDriver :: "number \<Rightarrow> SiDriver" where
  "newSiDriver zh =
    \<lparr>messageQueue = \<lparr>queue = [], waiters = 0, resolved = []\<rparr>,
     running = False,
     zerohour = zh,
     si6_192PunchesMode = False,
     accBuffer = replicate 139 0,
     accSize = 0,
     lastDataTime = 0,
     emitted = [],
     written = []\<rparr>"

text \<open>
  \<open>source.copy(target, targetStart, sourceStart, sourceEnd)\<close>: the bytes of the source
  from \<open>sourceStart\<close> up to \<open>sourceEnd\<close> overwrite the target from \<open>targetStart\<close>
  on, as far as the target reaches.
\<close>

definition bufferCopy :: "buffer \<Rightarrow> buffer \<Rightarrow> nat \<Rightarrow> nat \<Rightarrow> nat \<Rightarrow> buffer" where
  "bufferCopy source target targetStart sourceStart sourceEnd =
    (let bytes = take (length target - targetStart) (subarray source sourceStart sourceEnd)
     in take targetStart target @ bytes @ drop (targetStart + length bytes) target)"

definition log :: "SiDriver \<Rightarrow> direction \<Rightarrow> string \<Rightarrow> SiDriver" where
  "log d dir msg = d\<lparr>emitted := emitted d @ [Log dir msg]\<rparr>"

definition dispatchMessage :: "SiDriver \<Rightarrow> SiDriver" where
  "dispatchMessage d =
    (let msgBuf = subarray (accBuffer d) 0 (accSize d);
         msg = SiMessage msgBuf;
         d1 = log d READ (toString msg);
         d2 = d1\<lparr>messageQueue := push (messageQueue d1) msg\<rparr>
     in d2\<lparr>accSize := 0\<rparr>)"

text \<open>\<open>handleSerialData\<close>; the value of \<open>Date.now()\<close> is the parameter \<open>now\<close>.\<close>

definition handleSerialData :: "SiDriver \<Rightarrow> int \<Rightarrow> buffer \<Rightarrow> SiDriver" where
  "handleSerialData d now chunk =
    (let d1 = (if now > lastDataTime d + TIMEOUT_DELAY then d\<lparr>accSize := 0\<rparr> else d);
         d2 = d1\<lparr>lastDataTime := now\<rparr>;
         n = min (length chunk) (139 - accSize d2);
         d3 = d2\<lparr>accBuffer := bufferCopy chunk (accBuffer d2) (accSize d2) 0 n\<rparr>;
         d4 = d3\<lparr>accSize := accSize d3 + n\<rparr>
     in if accSize d4 = 1 \<and> bufAt (accBuffer d4) 0 \<noteq> 0x02 then dispatchMessage d4
        else if accSize d4 \<ge> 3 then
          (let expectedDataLen = unat (bufAt (accBuffer d4) 2);
               expectedTotal = expectedDataLen + 6
           in if accSize d4 \<ge> expectedTotal then dispatchMessage d4 else d4)
        else d4)"

text \<open>
  The length a frame announces for itself: the length byte at index 2 plus the six bytes
  of STX, command, length, CRC and ETX (\<open>expectedTotal\<close> in \<open>handleSerialData\<close>).
\<close>

definition expectedTotal :: "buffer \<Rightarrow> nat" where
  "expectedTotal frame = unat (bufAt frame 2) + 6"

text \<open>
  Sending writes the sequence to the port. The port adapter is outside the driver; its
  writes are taken to complete.
\<close>

definition send :: "SiDriver \<Rightarrow> SiMessage \<Rightarrow> SiDriver" where
  "send d msg = (let d1 = log d SEND (toString msg) in d1\<lparr>written := written d1 @ [sequence msg]\<rparr>)"

text \<open>
  \<open>messageQueue.take\<close> returns the head of the queue when there is one. Otherwise it
  waits, and what happens next is the environment's: \<open>arrivals\<close> lists the outcomes of
  the successive waits, \<open>Some msg\<close> a frame pushed before the timer fires and \<open>None\<close> the
  timer firing first (as it does when nothing arrives any more).
\<close>

type_synonym arrivals = "SiMessage option list"

definition take_msg :: "SiDriver \<Rightarrow> arrivals \<Rightarrow> (error + SiMessage) \<times> SiDriver \<times> arrivals" where
  "take_msg d arr =
    (case queue (messageQueue d) of
       m # q \<Rightarrow> (Inr m, d\<lparr>messageQueue := (messageQueue d)\<lparr>queue := q\<rparr>\<rparr>, arr)
     | [] \<Rightarrow>
        (case arr of
           [] \<Rightarrow> (Inl TimeoutError, d, [])
         | None # rest \<Rightarrow> (Inl TimeoutError, d, rest)
         | Some m # rest \<Rightarrow> (Inr m, d, rest)))"

definition pollAnswer ::
  "SiDriver \<Rightarrow> arrivals \<Rightarrow> byte \<Rightarrow> (error + SiMessage) \<times> SiDriver \<times> arrivals" where
  "pollAnswer d arr command =
    (case take_msg d arr of
       (Inl e, d1, arr1) \<Rightarrow> (Inl e, d1, arr1)
     | (Inr msg, d1, arr1) \<Rightarrow>
         if \<not> check msg command then (Inl (InvalidMessageError msg command), d1, arr1)
         else (Inr msg, d1, arr1))"

text \<open>\<open>x & m\<close> for a byte that may be \<open>undefined\<close>: \<open>undefined\<close> counts as 0.\<close>

definition bitAnd :: "byte option \<Rightarrow> byte \<Rightarrow> byte" where
  "bitAnd x m = (case x of None \<Rightarrow> 0 | Some b \<Rightarrow> b AND m)"

definition MSG_EXTENDED_PROTOCOL :: string where
  "MSG_EXTENDED_PROTOCOL = ''Master station should be configured with extended protocol''"

definition MSG_HANDSHAKE_MODE :: string where
  "MSG_HANDSHAKE_MODE = ''Master station should be configured in handshake mode (no autosend)''"

definition startup :: "SiDriver \<Rightarrow> arrivals \<Rightarrow> (error + unit) \<times> SiDriver \<times> arrivals" where
  "startup d arr =
    (let d1 = send d STARTUP_SEQUENCE
     in case pollAnswer d1 arr SET_MASTER_MODE of
          (Inl e, d2, arr2) \<Rightarrow> (Inl e, d2, arr2)
        | (Inr _, d2, arr2) \<Rightarrow>
     (let d3 = send d2 GET_PROTOCOL_CONFIGURATION
      in case pollAnswer d3 arr2 GET_SYSTEM_VALUE of
          (Inl e, d4, arr4) \<Rightarrow> (Inl e, d4, arr4)
        | (Inr configMsg, d4, arr4) \<Rightarrow>
     (let cpcByte = msgByteAt configMsg 6
      in if bitAnd cpcByte CONFIG_CHECK_MASK \<noteq> CONFIG_CHECK_MASK then
           (if bitAnd cpcByte EXTENDED_PROTOCOL_MASK = 0
            then (Inl (Error MSG_EXTENDED_PROTOCOL), d4, arr4)
            else (Inl (Error MSG_HANDSHAKE_MODE), d4, arr4))
         else
     (let d5 = send d4 GET_CARDBLOCKS_CONFIGURATION
      in case pollAnswer d5 arr4 GET_SYSTEM_VALUE of
          (Inl e, d6, arr6) \<Rightarrow> (Inl e, d6, arr6)
        | (Inr blockMsg, d6, arr6) \<Rightarrow>
     (let d7 = d6\<lparr>si6_192PunchesMode := (bitAnd (msgByteAt blockMsg 6) 0xff = 0xff)\<rparr>;
          d8 = log d7 INFO
                 (''SiCard6 192 Punches Mode '' @
                  (if si6_192PunchesMode d7 then ''Enabled'' else ''Disabled''));
          d9 = send d8 BEEP_TWICE;
          d10 = d9\<lparr>emitted := emitted d9 @ [Status ON]\<rparr>
      in (Inr (), d10, arr6))))))"

text \<open>
  Answers of a station, each with a correct CRC: to the startup sequence, and to the
  request for the protocol configuration with the configuration byte \<open>05\<close> (extended
  protocol and handshake), \<open>04\<close> (no extended protocol) and \<open>01\<close> (no handshake).
\<close>

definition startup_answer :: SiMessage where
  "startup_answer = SiMessage [0x02, 0xF0, 0x03, 0x00, 0x01, 0x4D, 0x0D, 0x11, 0x03]"

definition ok_ext_protocol_answer :: SiMessage where
  "ok_ext_protocol_answer =
    SiMessage [0x02, 0x83, 0x04, 0x00, 0x01, 0x74, 0x05, 0xB1, 0x64, 0x03]"

definition no_ext_protocol_answer :: SiMessage where
  "no_ext_protocol_answer =
    SiMessage [0x02, 0x83, 0x04, 0x00, 0x01, 0x74, 0x04, 0x31, 0x61, 0x03]"

definition no_handshake_answer :: SiMessage where
  "no_handshake_answer =
    SiMessage [0x02, 0x83, 0x04, 0x00, 0x01, 0x74, 0x01, 0x31, 0x7F, 0x03]"

section \<open>Course validator (validator.ts)\<close>

record Course =
  name :: string
  controls :: "int list"
  isInline :: bool
  useBoxStart :: bool
  fixedStartTimeMs :: "int option"

text \<open>
  The field \<open>timestampMs\<close> of a control result is \<open>resultTimestampMs\<close> here, the name
  \<open>timestampMs\<close> being the field of a punch.
\<close>

record ControlResult =
  expectedCode :: int
  found :: bool
  resultTimestampMs :: number

record ValidationResult =
  course :: Course
  controlResults :: "ControlResult list"
  missingCount :: nat
  extraControls :: "int list"
  allCorrect :: bool

text \<open>\<open>expected.includes(c)\<close>\<close>

definition arrayIncludes :: "int list \<Rightarrow> int \<Rightarrow> bool" where
  "arrayIncludes expected c = List.member expected c"

text \<open>
  \<open>existsCodeFrom\<close>: the loop \<open>for (j = fromIndex; j < punches.length; j++)\<close> returns at
  the first punch with the code.
\<close>

function existsCodeFrom :: "int \<Rightarrow> SiPunch list \<Rightarrow> nat \<Rightarrow> bool" where
  "existsCodeFrom c ps j =
    (if j < length ps then (if code (ps ! j) = c then True else existsCodeFrom c ps (j + 1))
     else False)"
  by pat_completeness auto
termination
  by (relation "measure (\<lambda>(c, ps, j). length ps - j)") auto

declare existsCodeFrom.simps [simp del]

text \<open>\<open>findExtraControls\<close>: the loop over the punches pushes the codes not expected.\<close>

fun findExtraLoop :: "int list \<Rightarrow> SiPunch list \<Rightarrow> int list \<Rightarrow> int list" where
  "findExtraLoop expected [] extras = extras"
| "findExtraLoop expected (p # ps) extras =
    findExtraLoop expected ps
      (if \<not> arrayIncludes expected (code p) then extras @ [code p] else extras)"

definition findExtraControls :: "int list \<Rightarrow> SiPunch list \<Rightarrow> int list" where
  "findExtraControls expected ps = findExtraLoop expected ps []"

text \<open>The first loop of \<open>validateInline\<close> keeps the punches whose code the course has.\<close>

fun relevantLoop :: "int list \<Rightarrow> SiPunch list \<Rightarrow> SiPunch list \<Rightarrow> SiPunch list" where
  "relevantLoop expected [] rel = rel"
| "relevantLoop expected (p # ps) rel =
    relevantLoop expected ps (if arrayIncludes expected (code p) then rel @ [p] else rel)"

text \<open>
  The distance matrix is a list of rows. A cell of \<open>new Array(n + 1)\<close> that has not been
  written yet holds 0 here; the source writes every cell before it reads it.
\<close>

type_synonym matrix = "nat list list"

definition cell :: "matrix \<Rightarrow> nat \<Rightarrow> nat \<Rightarrow> nat" where
  "cell M i j = M ! i ! j"

definition setCell :: "matrix \<Rightarrow> nat \<Rightarrow> nat \<Rightarrow> nat \<Rightarrow> matrix" where
  "setCell M i j v = M[i := (M ! i)[j := v]]"

text \<open>\<open>for (i = 0; i <= m; i++) { matrix[i] = new Array(n + 1); matrix[i][0] = i; }\<close>\<close>

function initRows :: "nat \<Rightarrow> nat \<Rightarrow> nat \<Rightarrow> matrix \<Rightarrow> matrix" where
  "initRows m n i M =
    (if i \<le> m then initRows m n (i + 1) (M @ [(replicate (n + 1) 0)[0 := i]]) else M)"
  by pat_completeness auto
termination
  by (relation "measure (\<lambda>(m, n, i, M). m + 1 - i)") auto

declare initRows.simps [simp del]

text \<open>\<open>for (j = 0; j <= n; j++) { matrix[0][j] = j; }\<close>\<close>

function initColumns :: "nat \<Rightarrow> nat \<Rightarrow> matrix \<Rightarrow> matrix" where
  "initColumns n j M = (if j \<le> n then initColumns n (j + 1) (setCell M 0 j j) else M)"
  by pat_completeness auto
termination
  by (relation "measure (\<lambda>(n, j, M). n + 1 - j)") auto

declare initColumns.simps [simp del]

text \<open>The inner loop \<open>for (j = 0; j < n; j++)\<close> of the fill, for row \<open>i + 1\<close>.\<close>

function fillCells :: "int list \<Rightarrow> SiPunch list \<Rightarrow> nat \<Rightarrow> nat \<Rightarrow> matrix \<Rightarrow> matrix" where
  "fillCells expected rel i j M =
    (if j < length rel then
       (let cost = (if expected ! i = code (rel ! j) then 0 else 1);
            v = min (min (1 + cell M (i + 1) j) (1 + cell M i (j + 1))) (cost + cell M i j)
        in fillCells expected rel i (j + 1) (setCell M (i + 1) (j + 1) v))
     else M)"
  by pat_completeness auto
termination
  by (relation "measure (\<lambda>(expected, rel, i, j, M). length rel - j)") auto

declare fillCells.simps [simp del]

text \<open>The outer loop \<open>for (i = 0; i < m; i++)\<close>.\<close>

function fillRows :: "int list \<Rightarrow> SiPunch list \<Rightarrow> nat \<Rightarrow> matrix \<Rightarrow> matrix" where
  "fillRows expected rel i M =
    (if i < length expected then fillRows expected rel (i + 1) (fillCells expected rel i 0 M)
     else M)"
  by pat_completeness auto
termination
  by (relation "measure (\<lambda>(expected, rel, i, M). length expected - i)") auto

declare fillRows.simps [simp del]

definition buildMatrix :: "int list \<Rightarrow> SiPunch list \<Rightarrow> matrix" where
  "buildMatrix expected rel =
    (let m = length expected; n = length rel
     in fillRows expected rel 0 (initColumns n 0 (initRows m n 0 [])))"

definition okResult :: "int \<Rightarrow> SiPunch \<Rightarrow> ControlResult" where
  "okResult c p = \<lparr>expectedCode = c, found = True, resultTimestampMs = timestampMs p\<rparr>"

definition pmResult :: "int \<Rightarrow> ControlResult" where
  "pmResult c = \<lparr>expectedCode = c, found = False, resultTimestampMs = NO_TIME\<rparr>"

text \<open>
  The trace \<open>while (i < m && j < n)\<close>; its state is \<open>i\<close>, \<open>j\<close> and the results pushed so
  far. In the branch that reports a missing control although the code comes later, the
  source decrements \<open>j\<close> and then runs the shared \<open>j++\<close>: \<open>j\<close> is left as it was.
\<close>

function traceLoop ::
  "int list \<Rightarrow> SiPunch list \<Rightarrow> matrix \<Rightarrow> nat \<Rightarrow> nat \<Rightarrow> nat \<Rightarrow> ControlResult list
    \<Rightarrow> nat \<times> nat \<times> ControlResult list" where
  "traceLoop expected rel M totalCost i j res =
    (if i < length expected \<and> j < length rel then
       (if cell M (i + 1) (j + 1) = cell M i j then
          traceLoop expected rel M totalCost (i + 1) (j + 1)
            (res @ [okResult (expected ! i) (rel ! j)])
        else if \<not> existsCodeFrom (expected ! i) rel (j + 1) then
          traceLoop expected rel M totalCost (i + 1) j (res @ [pmResult (expected ! i)])
        else if cell M i (j + 1) > totalCost then
          traceLoop expected rel M totalCost (i + 1) j (res @ [pmResult (expected ! i)])
        else
          traceLoop expected rel M totalCost i (j + 1) res)
     else (i, j, res))"
  by pat_completeness auto
termination
  by (relation "measure (\<lambda>(expected, rel, M, totalCost, i, j, res).
        (length expected - i) + (length rel - j))") auto

declare traceLoop.simps [simp del]

text \<open>The loop \<open>while (i < m)\<close> for the expected controls that are left.\<close>

function remainingLoop :: "int list \<Rightarrow> nat \<Rightarrow> ControlResult list \<Rightarrow> ControlResult list" where
  "remainingLoop expected i res =
    (if i < length expected then remainingLoop expected (i + 1) (res @ [pmResult (expected ! i)])
     else res)"
  by pat_completeness auto
termination
  by (relation "measure (\<lambda>(expected, i, res). length expected - i)") auto

declare remainingLoop.simps [simp del]

definition validateInline :: "Course \<Rightarrow> SiPunch list \<Rightarrow> ValidationResult" where
  "validateInline crs ps =
    (let expected = controls crs;
         relevantPunches = relevantLoop expected ps [];
         m = length expected;
         n = length relevantPunches;
         M = buildMatrix expected relevantPunches;
         totalCost = cell M m n;
         (i, j, traced) = traceLoop expected relevantPunches M totalCost 0 0 [];
         results = remainingLoop expected i traced;
         extras = findExtraControls expected ps;
         missing = length (filter (\<lambda>r. \<not> found r) results)
     in \<lparr>course = crs,
         controlResults = results,
         missingCount = missing,
         extraControls = extras,
         allCorrect = (missing = 0)\<rparr>)"

text \<open>
  \<open>validateScoreO\<close>. The callback of \<open>expected.map\<close> scans the punches for the first one
  that is not used yet and has the code; it marks the punch used.
\<close>

function scoreScan :: "SiPunch list \<Rightarrow> bool list \<Rightarrow> int \<Rightarrow> nat \<Rightarrow> nat option" where
  "scoreScan ps used c i =
    (if i < length ps then
       (if \<not> used ! i \<and> code (ps ! i) = c then Some i else scoreScan ps used c (i + 1))
     else None)"
  by pat_completeness auto
termination
  by (relation "measure (\<lambda>(ps, used, c, i). length ps - i)") auto

declare scoreScan.simps [simp del]

fun scoreMap ::
  "SiPunch list \<Rightarrow> int list \<Rightarrow> bool list \<Rightarrow> ControlResult list \<Rightarrow> ControlResult list" where
  "scoreMap ps [] used res = res"
| "scoreMap ps (c # cs) used res =
    (case scoreScan ps used c 0 of
       Some i \<Rightarrow> scoreMap ps cs (used[i := True]) (res @ [okResult c (ps ! i)])
     | None \<Rightarrow> scoreMap ps cs used (res @ [pmResult c]))"

definition validateScoreO :: "Course \<Rightarrow> SiPunch list \<Rightarrow> ValidationResult" where
  "validateScoreO crs ps =
    (let expected = controls crs;
         used = replicate (length ps) False;
         results = scoreMap ps expected used [];
         extras = findExtraControls expected ps;
         missing = length (filter (\<lambda>r. \<not> found r) results)
     in \<lparr>course = crs,
         controlResults = results,
         missingCount = missing,
         extraControls = extras,
         allCorrect = (missing = 0)\<rparr>)"

text \<open>A course of five controls, and a card that punched them in order.\<close>

definition test_course :: Course where
  "test_course =
    \<lparr>name = ''Test Course'', controls = [31, 32, 33, 34, 35], isInline = True,
     useBoxStart = True, fixedStartTimeMs = None\<rparr>"

definition test_punches :: "SiPunch list" where
  "test_punches =
    [\<lparr>code = 31, timestampMs = Finite 1000\<rparr>, \<lparr>code = 32, timestampMs = Finite 2000\<rparr>,
     \<lparr>code = 33, timestampMs = Finite 3000\<rparr>, \<lparr>code = 34, timestampMs = Finite 4000\<rparr>,
     \<lparr>code = 35, timestampMs = Finite 5000\<rparr>]"

section \<open>Properties of the CRC engine\<close>

text \<open>
  C9: the CRC of the ten bytes \<open>53 00 05 01 0F B5 00 00 1E 08\<close>, the reference vector of
  the protocol, is \<open>0x2C12\<close>.
\<close>

theorem crc_reference_vector:
  "crc [0x53, 0x00, 0x05, 0x01, 0x0f, 0xb5, 0x00, 0x00, 0x1e, 0x08] = 0x2C12"
  by code_simp

lemma unat_high_byte: "unat (push_bit 8 (ucast (b :: byte)) :: 16 word) = 256 * unat b"
proof -
  have b: "unat b < 256"
    using unsigned_less [of b] by simp
  have "unat (push_bit 8 (ucast b) :: 16 word)
      = take_bit 16 (push_bit 8 (take_bit 16 (unat b)))"
    by (simp add: unsigned_push_bit_eq unsigned_ucast_eq)
  also have "take_bit 16 (unat b) = unat b"
    using b by (simp add: take_bit_nat_eq_self)
  also have "take_bit 16 (push_bit 8 (unat b)) = push_bit 8 (unat b)"
    using b by (simp add: take_bit_nat_eq_self push_bit_eq_mult)
  finally show ?thesis
    by (simp add: push_bit_eq_mult)
qed

text \<open>
  C3, as stated: the CRC of a buffer of fewer than two bytes is 0. The function has no
  guard for short buffers: it reads the first two bytes, a missing byte counting as 0, and
  returns the word they form. For the one-byte buffer \<open>01\<close> that word is \<open>0x0100\<close>.
\<close>

theorem crc_one_byte_counterexample:
  "length [1 :: byte] < 2 \<and> crc [1] = 256 \<and> crc [1] \<noteq> 0"
  by code_simp

text \<open>
  C3, amended: the CRC of a buffer of fewer than two bytes is its first byte shifted left
  by eight bits, a missing byte counting as 0; it is 0 for the empty buffer and 256 times
  the byte for a buffer of one byte.
\<close>

theorem crc_short_buffer:
  "length buffer < 2 \<Longrightarrow> unat (crc buffer) = 256 * unat (bufAt buffer 0)"
proof (cases buffer)
  case Nil
  then show ?thesis
    by (simp add: crc_def crcWord_def bufAt_def)
next
  case (Cons b bs)
  assume "length buffer < 2"
  with Cons have "bs = []" by simp
  with Cons show ?thesis
    by (simp add: crc_def crcWord_def bufAt_def unat_high_byte)
qed

theorem crc_short_buffer_witness:
  "length [0x53 :: byte] < 2 \<and> unat (crc [0x53]) = 256 * 83 \<and> unat (crc []) = 0"
  using crc_short_buffer [of "[0x53]"] crc_short_buffer [of "[]"]
  by (simp add: bufAt_def)

section \<open>Properties of the time normalisation\<close>

lemma bitLength_le: "n < 2 ^ k \<Longrightarrow> bitLength n \<le> k"
proof (induction k arbitrary: n)
  case 0
  then show ?case by (subst bitLength.simps) simp
next
  case (Suc k)
  show ?case
  proof (cases "n \<le> 0")
    case True
    then show ?thesis by (subst bitLength.simps) simp
  next
    case False
    from Suc.prems have "n div 2 < 2 ^ k" by simp
    then have "bitLength (n div 2) \<le> k" by (rule Suc.IH)
    with False show ?thesis by (subst bitLength.simps) simp
  qed
qed

lemma roundDouble_exact: "\<bar>x\<bar> < 2 ^ 53 \<Longrightarrow> roundDouble x = x"
proof -
  assume "\<bar>x\<bar> < 2 ^ 53"
  then have "bitLength \<bar>x\<bar> \<le> 53" by (rule bitLength_le)
  then have "bitLength \<bar>x\<bar> - 53 = 0" by simp
  then show ?thesis
    by (simp add: roundDouble_def Let_def)
qed

lemma toNumber_exact: "\<bar>x\<bar> < 2 ^ 53 \<Longrightarrow> toNumber x = Finite x"
proof -
  assume b: "\<bar>x\<bar> < 2 ^ 53"
  have "(2::int) ^ 53 \<le> 2 ^ 1024"
    by (rule power_increasing) simp_all
  with b have "x < 2 ^ 1024" "- (2 ^ 1024) < x" by linarith+
  with b show ?thesis
    by (simp add: toNumber_def roundDouble_exact Let_def)
qed

lemma advanceLoop_exact:
  assumes "0 < s" and "b + s < 2 ^ 53"
  shows "- (2 ^ 53) < t \<Longrightarrow>
    \<exists>k::nat. advanceLoop (Finite t) (Finite b) s = Some (Finite (t + int k * s)) \<and>
      b \<le> t + int k * s \<and> (0 < k \<longrightarrow> t + int k * s < b + s)"
proof (induction "nat (b - t)" arbitrary: t rule: less_induct)
  case less
  show ?case
  proof (cases "t < b")
    case True
    have exact: "numAdd (Finite t) s = Finite (t + s)"
      using True assms less.prems by (simp add: numAdd_def toNumber_exact)
    have "nat (b - (t + s)) < nat (b - t)"
      using True assms(1) by simp
    moreover have "- (2 ^ 53) < t + s"
      using less.prems assms(1) by simp
    ultimately obtain k :: nat
      where k: "advanceLoop (Finite (t + s)) (Finite b) s = Some (Finite (t + s + int k * s))"
        "b \<le> t + s + int k * s" "0 < k \<longrightarrow> t + s + int k * s < b + s"
      using less.hyps by blast
    have "advanceLoop (Finite t) (Finite b) s = Some (Finite (t + int (Suc k) * s))"
      using True k(1) exact
      by (subst advanceLoop.simps) (simp add: numLess_def algebra_simps)
    moreover have "b \<le> t + int (Suc k) * s"
      using k(2) by (simp add: algebra_simps)
    moreover have "t + int (Suc k) * s < b + s"
    proof (cases "0 < k")
      case True
      with k(3) show ?thesis by (simp add: algebra_simps)
    next
      case False
      with \<open>t < b\<close> show ?thesis by simp
    qed
    ultimately show ?thesis by blast
  next
    case False
    then have "advanceLoop (Finite t) (Finite b) s = Some (Finite (t + int 0 * s))"
      by (subst advanceLoop.simps) (simp add: numLess_def)
    moreover have "b \<le> t + int 0 * s"
      using False by simp
    ultimately show ?thesis by blast
  qed
qed

lemma advanceLoop_stuck:
  assumes "numLess t b" and "numAdd t s = t"
  shows "advanceLoop t b s = None"
proof -
  have "\<not> (t' = t \<and> b' = b \<and> s' = s)" if run: "advanceLoop t' b' s' = Some r" for t' b' s' r
  proof (rule advanceLoop.raw_induct [where P = "\<lambda>t' b' s' r. \<not> (t' = t \<and> b' = b \<and> s' = s)"])
    show "advanceLoop t' b' s' = Some r" by (rule run)
  next
    fix f t' b' s' r
    assume IH: "\<And>t' b' s' y. f t' b' s' = Some y \<Longrightarrow> \<not> (t' = t \<and> b' = b \<and> s' = s)"
      and body: "(if numLess t' b' then f (numAdd t' s') b' s' else Some t') = Some r"
    show "\<not> (t' = t \<and> b' = b \<and> s' = s)"
    proof
      assume "t' = t \<and> b' = b \<and> s' = s"
      with body assms have "f t b s = Some r" by simp
      with IH show False by blast
    qed
  qed
  then show ?thesis
    by (cases "advanceLoop t b s") auto
qed


lemma advanceTimePast_exact:
  assumes "0 < s" and "\<bar>ref - 3600000\<bar> < 2 ^ 53" and "ref - 3600000 + s < 2 ^ 53"
    and "- (2 ^ 53) < t" and "t \<noteq> NO_SI_TIME" and "Finite ref \<noteq> NO_TIME"
  shows "\<exists>k::nat. advanceTimePast t (Finite ref) s = Some (Finite (t + int k * s)) \<and>
      ref - 3600000 \<le> t + int k * s \<and> (0 < k \<longrightarrow> t + int k * s < ref - 3600000 + s)"
proof -
  have base: "numAdd (Finite ref) (- 3600000) = Finite (ref - 3600000)"
    using assms(2) by (simp add: numAdd_def toNumber_exact)
  from advanceLoop_exact [OF assms(1,3,4)] show ?thesis
    using assms(5,6) by (simp add: advanceTimePast_def base)
qed

lemma advanceTimePast_exact52:
  assumes "0 < s" and "s \<le> 2 ^ 52" and "\<bar>t\<bar> \<le> 2 ^ 52" and "\<bar>ref\<bar> \<le> 2 ^ 52"
    and "t \<noteq> NO_SI_TIME" and "Finite ref \<noteq> NO_TIME"
  shows "\<exists>k::nat. advanceTimePast t (Finite ref) s = Some (Finite (t + int k * s)) \<and>
      ref - 3600000 \<le> t + int k * s \<and> (0 < k \<longrightarrow> t + int k * s < ref - 3600000 + s)"
proof -
  have half: "(2::int) ^ 53 = 2 * 2 ^ 52" by simp
  have "\<bar>ref - 3600000\<bar> < 2 ^ 53" "ref - 3600000 + s < 2 ^ 53" "- (2 ^ 53) < t"
    using assms(2,3,4) by (simp_all add: half)
  then show ?thesis
    using assms(1,5,6) by (intro advanceTimePast_exact)
qed




text \<open>
  C10, as stated: for every input with a strictly positive step the loop of
  \<open>advanceTimePast\<close> makes finitely many passes. With the timestamp \<open>2^53\<close>, the reference
  \<open>2^53 + 3600002\<close> and the step 1 the timestamp is below the base \<open>2^53 + 2\<close>, and the
  sum \<open>2^53 + 1\<close> is rounded back to \<open>2^53\<close>: the loop never ends.
\<close>

theorem advanceTimePast_absorbed_step_counterexample:
  "(0::int) < 1 \<and>
   advanceTimePast 9007199254740992 (Finite 9007199258340994) 1 = None"
proof -
  have base: "numAdd (Finite 9007199258340994) (- 3600000) = Finite 9007199254740994"
    by code_simp
  have less: "numLess (Finite 9007199254740992) (Finite 9007199254740994)"
    by (simp add: numLess_def)
  have same: "numAdd (Finite 9007199254740992) 1 = Finite 9007199254740992"
    by code_simp
  have "advanceLoop (Finite 9007199254740992) (Finite 9007199254740994) 1 = None"
    using less same by (rule advanceLoop_stuck)
  then show ?thesis
    by (simp add: advanceTimePast_def base NO_SI_TIME_def NO_TIME_def)
qed

text \<open>
  C10, amended: for integers timestamp, reference and step of magnitude at most \<open>2^52\<close>
  and a strictly positive step the loop of \<open>advanceTimePast\<close> makes finitely many passes,
  that is, the function returns a value.
\<close>

theorem advanceTimePast_terminates:
  assumes "0 < stepTime" and "stepTime \<le> 2 ^ 52"
    and "\<bar>timestamp\<bar> \<le> 2 ^ 52" and "\<bar>refTime\<bar> \<le> 2 ^ 52"
  shows "\<exists>r. advanceTimePast timestamp (Finite refTime) stepTime = Some r"
proof (cases "timestamp = NO_SI_TIME \<or> Finite refTime = NO_TIME")
  case True
  then show ?thesis
    by (auto simp: advanceTimePast_def)
next
  case False
  with advanceTimePast_exact52 [OF assms] show ?thesis
    by blast
qed

theorem advanceTimePast_terminates_witness:
  "0 < ONE_DAY \<and> ONE_DAY \<le> 2 ^ 52 \<and>
   (\<exists>r. advanceTimePast 1000 (Finite 86400000) ONE_DAY = Some r)"
  using advanceTimePast_terminates [of ONE_DAY 1000 86400000]
  by (simp add: ONE_DAY_def TWELVE_HOURS_def)

section \<open>Properties of the Card-5 decoder\<close>

lemma byteAt_range: "0 \<le> byteAt data i \<and> byteAt data i < 256"
  using uint_lt2p [of "bufAt data i"] by (simp add: byteAt_def)

lemma wordAt_range: "0 \<le> wordAt data i \<and> wordAt data i < 65536"
proof -
  have a: "0 \<le> byteAt data i" "byteAt data i < 2 ^ 8"
    and b: "0 \<le> byteAt data (i + 1)" "byteAt data (i + 1) < 2 ^ 8"
    using byteAt_range [of data i] byteAt_range [of data "i + 1"] by simp_all
  have hi: "0 \<le> push_bit 8 (byteAt data i)" "push_bit 8 (byteAt data i) < 2 ^ 16"
    using a by (simp_all add: push_bit_eq_mult)
  have "byteAt data (i + 1) < 2 ^ 16"
    using b(2) by simp
  with hi b(1) have "push_bit 8 (byteAt data i) OR byteAt data (i + 1) < 2 ^ 16"
    by (intro OR_upper) simp_all
  moreover have "0 \<le> push_bit 8 (byteAt data i) OR byteAt data (i + 1)"
    using hi(1) b(1) by simp
  ultimately show ?thesis
    by (simp add: wordAt_def)
qed

lemma timestampAt_range: "0 \<le> timestampAt data i \<and> timestampAt data i \<le> 65535000"
  using wordAt_range [of data i] by (simp add: timestampAt_def)

lemma advance12_bounded:
  assumes "- (2 ^ 52) \<le> r" and "r \<le> 2 ^ 52 + 65535000 + 31 * 43200000"
  shows "\<exists>p. advanceTimePast (timestampAt data i) (Finite r) TWELVE_HOURS = Some (Finite p) \<and>
      - 1 \<le> p \<and> p \<le> max 65535000 (r + 39600000)"
proof -
  let ?raw = "timestampAt data i"
  note raw = timestampAt_range [of data i]
  have p52: "(2::int) ^ 52 = 4503599627370496" and p53: "(2::int) ^ 53 = 9007199254740992"
    by simp_all
  show ?thesis
  proof (cases "?raw = NO_SI_TIME")
    case True
    then show ?thesis
      by (simp add: advanceTimePast_def NO_TIME_def)
  next
    case raw_ok: False
    show ?thesis
    proof (cases "Finite r = NO_TIME")
      case True
      with raw_ok raw show ?thesis
        by (auto simp: advanceTimePast_def)
    next
      case False
      have "0 < TWELVE_HOURS" "\<bar>r - 3600000\<bar> < 2 ^ 53" "r - 3600000 + TWELVE_HOURS < 2 ^ 53"
        "- (2 ^ 53) < ?raw"
        using assms raw by (simp_all add: TWELVE_HOURS_def p52 p53)
      from advanceTimePast_exact [OF this raw_ok False] obtain k :: nat where
        k: "advanceTimePast ?raw (Finite r) TWELVE_HOURS = Some (Finite (?raw + int k * TWELVE_HOURS))"
          "0 < k \<longrightarrow> ?raw + int k * TWELVE_HOURS < r - 3600000 + TWELVE_HOURS"
        by blast
      have "- 1 \<le> ?raw + int k * TWELVE_HOURS"
        using raw by (simp add: TWELVE_HOURS_def)
      moreover have "?raw + int k * TWELVE_HOURS \<le> max 65535000 (r + 39600000)"
      proof (cases "0 < k")
        case True
        with k(2) show ?thesis by (simp add: TWELVE_HOURS_def max_def)
      next
        case False
        with raw show ?thesis by (simp add: max_def)
      qed
      ultimately show ?thesis
        using k(1) by blast
    qed
  qed
qed


lemma boundedRef_mono: "i \<le> j \<Longrightarrow> boundedRef i x \<Longrightarrow> boundedRef j x"
proof -
  assume le: "i \<le> j" and b: "boundedRef i x"
  from le have "int i * 43200000 \<le> int j * 43200000" by simp
  with b show ?thesis
    by (cases x) (auto simp: boundedRef_def)
qed

lemma boundedRef_NO_TIME: "boundedRef i NO_TIME"
  by (simp add: boundedRef_def NO_TIME_def)

lemma advance12_ref:
  assumes "boundedRef i ref" and "i \<le> 31"
  shows "\<exists>p. advanceTimePast (timestampAt data k) ref TWELVE_HOURS = Some p \<and>
      boundedRef (i + 1) p \<and> boundedRef (i + 1) (newRefTime ref p)"
proof -
  from assms(1) obtain r where r: "ref = Finite r" "- (2 ^ 52) \<le> r"
    "r \<le> 2 ^ 52 + 65535000 + int i * 43200000"
    by (cases ref) (auto simp: boundedRef_def)
  from assms(2) have "int i * 43200000 \<le> 31 * 43200000" by simp
  with r(3) have "r \<le> 2 ^ 52 + 65535000 + 31 * 43200000" by linarith
  from advance12_bounded [OF r(2) this, of data k] obtain p where
    p: "advanceTimePast (timestampAt data k) (Finite r) TWELVE_HOURS = Some (Finite p)"
      "- 1 \<le> p" "p \<le> max 65535000 (r + 39600000)"
    by blast
  have i0: "0 \<le> int i * 43200000" by simp
  have p52: "(2::int) ^ 52 = 4503599627370496" by simp
  have "p \<le> 2 ^ 52 + 65535000 + (int i * 43200000 + 43200000)"
  proof (cases "65535000 \<le> r + 39600000")
    case True
    with p(3) have "p \<le> r + 39600000" by simp
    with r(3) show ?thesis by linarith
  next
    case False
    with p(3) have "p \<le> 65535000" by simp
    with i0 show ?thesis by (simp add: p52)
  qed
  moreover have "- (2 ^ 52) \<le> p"
    using p(2) by (simp add: p52)
  ultimately have "boundedRef (i + 1) (Finite p)"
    by (simp add: boundedRef_def algebra_simps)
  moreover from this have "boundedRef (i + 1) (newRefTime ref (Finite p))"
    using assms(1) boundedRef_mono [of i "i + 1" ref] by (simp add: newRefTime_def)
  ultimately show ?thesis
    using p(1) r(1) by blast
qed

lemma si5TimedLoop_returns:
  assumes "nbTimed \<le> 30" and "boundedRef (i + 1) refTime"
    and "\<forall>p \<in> set ps. boundedRef 31 (timestampMs p)"
  shows "\<exists>ps' r'. si5TimedLoop data nbTimed i ps refTime = Some (ps', r') \<and>
     length ps' = length ps + nat (nbTimed - int i) \<and>
     (\<forall>p \<in> set ps'. boundedRef 31 (timestampMs p))"
  using assms
proof (induction data nbTimed i ps refTime rule: si5TimedLoop.induct)
  case (1 data nbTimed i ps refTime)
  show ?case
  proof (cases "int i < nbTimed")
    case False
    with "1.prems" show ?thesis
      by (simp add: si5TimedLoop.simps)
  next
    case True
    with "1.prems"(1) have i: "i + 1 \<le> 30" by simp
    define offset where "offset = 0x21 + (i div 5) * 0x10 + (i mod 5) * 0x03"
    from advance12_ref [OF "1.prems"(2), of data "offset + 1"] i obtain pt where
      pt: "advanceTimePast (timestampAt data (offset + 1)) refTime TWELVE_HOURS = Some pt"
        "boundedRef (i + 1 + 1) pt" "boundedRef (i + 1 + 1) (newRefTime refTime pt)"
      by auto
    let ?p = "\<lparr>code = byteAt data offset, timestampMs = pt\<rparr>"
    have "boundedRef 31 pt"
      using pt(2) i by (intro boundedRef_mono [of "i + 1 + 1" 31]) simp_all
    with "1.prems"(3) have all: "\<forall>p \<in> set (ps @ [?p]). boundedRef 31 (timestampMs p)"
      by simp
    from "1.IH" [OF True offset_def refl refl pt(1) "1.prems"(1) pt(3) all]
    obtain ps' r' where rec:
      "si5TimedLoop data nbTimed (i + 1) (ps @ [?p]) (newRefTime refTime pt) = Some (ps', r')"
      "length ps' = length (ps @ [?p]) + nat (nbTimed - int (i + 1))"
      "\<forall>p \<in> set ps'. boundedRef 31 (timestampMs p)"
      by blast
    have eq: "si5TimedLoop data nbTimed i ps refTime = Some (ps', r')"
      using True pt(1) rec(1) by (subst si5TimedLoop.simps) (simp add: offset_def Let_def)
    have "length ps' = length ps + nat (nbTimed - int i)"
      using rec(2) True by simp
    with eq rec(3) show ?thesis
      by simp
  qed
qed

lemma si5UntimedLoop_length:
  assumes "\<forall>p \<in> set ps. boundedRef 31 (timestampMs p)"
  shows "length (si5UntimedLoop data nbPunches i ps)
           = length ps + nat (nbPunches - SI5_TIMED_PUNCHES - int i) \<and>
         (\<forall>p \<in> set (si5UntimedLoop data nbPunches i ps). boundedRef 31 (timestampMs p))"
  using assms
proof (induction data nbPunches i ps rule: si5UntimedLoop.induct)
  case (1 data nbPunches i ps)
  show ?case
  proof (cases "int i < nbPunches - SI5_TIMED_PUNCHES")
    case False
    with "1.prems" show ?thesis
      by (simp add: si5UntimedLoop.simps)
  next
    case True
    let ?ps1 = "ps @ [\<lparr>code = byteAt data (0x20 + i * 0x10), timestampMs = NO_TIME\<rparr>]"
    have all: "\<forall>p \<in> set ?ps1. boundedRef 31 (timestampMs p)"
      using "1.prems" by (simp add: boundedRef_NO_TIME)
    from "1.IH" [OF True refl all]
    have ih: "length (si5UntimedLoop data nbPunches (i + 1) ?ps1)
        = length ?ps1 + nat (nbPunches - SI5_TIMED_PUNCHES - int (i + 1))"
      "\<forall>p \<in> set (si5UntimedLoop data nbPunches (i + 1) ?ps1). boundedRef 31 (timestampMs p)"
      by simp_all
    have eq: "si5UntimedLoop data nbPunches i ps = si5UntimedLoop data nbPunches (i + 1) ?ps1"
      using True by (subst si5UntimedLoop.simps) (simp add: Let_def)
    show ?thesis
      using ih True by (simp add: eq)
  qed
qed

text \<open>
  C2, as stated: the record that \<open>parseSi5\<close> returns has as many punches as its
  \<open>punchCount\<close>, the byte at \<open>0x17\<close> of the data block minus 1. When that byte is 0 the
  count is \<open>-1\<close> and the list of punches is empty: here on a response that passes the
  check of the driver.
\<close>

theorem parseSi5_blank_counterexample:
  "check si5_blank GET_SI_CARD_5 \<and>
   parseSi5 si5_blank (Finite 0) =
     Some \<lparr>cardNumber = ''0'', cardSeries = ''SiCard 5'', startTime = Finite 0,
           finishTime = Finite 0, checkTime = Finite 0, punchCount = - 1, punches = []\<rparr> \<and>
   int (length (punches (the (parseSi5 si5_blank (Finite 0)))))
     \<noteq> punchCount (the (parseSi5 si5_blank (Finite 0)))"
  by code_simp

text \<open>
  C2, amended: for every Card-5 response and every integer zero hour of magnitude at most
  \<open>2^52\<close>, \<open>parseSi5\<close> returns a record whose \<open>punchCount\<close> is the byte at \<open>0x17\<close> of the
  data block minus 1 and whose list of punches has \<open>max(punchCount, 0)\<close> entries: as many
  as \<open>punchCount\<close> whenever the byte is at least 1.
\<close>

theorem parseSi5_punches_length:
  assumes "\<bar>zh\<bar> \<le> 2 ^ 52"
  shows "\<exists>cd. parseSi5 message (Finite zh) = Some cd \<and>
     punchCount cd = byteAt (si5Data message) 0x17 - 1 \<and>
     int (length (punches cd)) = max 0 (punchCount cd)"
proof -
  let ?data = "si5Data message"
  let ?nb = "si5NbPunches message"
  let ?nbTimed = "min ?nb SI5_TIMED_PUNCHES"
  have zh: "boundedRef 0 (Finite zh)"
    using assms by (auto simp: boundedRef_def)
  from advance12_ref [OF zh, of ?data "0x13"] obtain startT where
    st: "advanceTimePast (timestampAt ?data 0x13) (Finite zh) TWELVE_HOURS = Some startT"
      "boundedRef (0 + 1) (newRefTime (Finite zh) startT)"
    by auto
  from advance12_ref [OF zh, of ?data "0x19"] obtain checkT where
    ct: "advanceTimePast (timestampAt ?data 0x19) (Finite zh) TWELVE_HOURS = Some checkT"
    by auto
  let ?init = "newRefTime (Finite zh) startT"
  have "?nbTimed \<le> 30"
    by (simp add: SI5_TIMED_PUNCHES_def)
  from si5TimedLoop_returns [OF this st(2), of "[]" ?data] obtain timed R where
    tl: "si5TimedLoop ?data ?nbTimed 0 [] ?init = Some (timed, R)"
      "length timed = nat ?nbTimed"
      "\<forall>p \<in> set timed. boundedRef 31 (timestampMs p)"
    by auto
  let ?all = "si5UntimedLoop ?data ?nb 0 timed"
  from si5UntimedLoop_length [OF tl(3), of ?data ?nb 0]
  have len: "length ?all = length timed + nat (?nb - SI5_TIMED_PUNCHES)"
    and all: "\<forall>p \<in> set ?all. boundedRef 31 (timestampMs p)"
    by simp_all
  let ?last = "if ?nbTimed > 0 then newRefTime ?init (timestampMs (?all ! nat (?nbTimed - 1)))
      else ?init"
  have init31: "boundedRef 31 ?init"
    using st(2) by (intro boundedRef_mono [of "0 + 1" 31]) simp_all
  have "boundedRef 31 ?last"
  proof (cases "?nbTimed > 0")
    case False
    show ?thesis
      using init31 by (simp only: if_not_P [OF False])
  next
    case True
    then have "nat (?nbTimed - 1) < nat ?nbTimed"
      by linarith
    then have "nat (?nbTimed - 1) < length ?all"
      using len tl(2) by linarith
    then have "?all ! nat (?nbTimed - 1) \<in> set ?all"
      by (rule nth_mem)
    with all have "boundedRef 31 (timestampMs (?all ! nat (?nbTimed - 1)))"
      by blast
    with init31 have "boundedRef 31 (newRefTime ?init (timestampMs (?all ! nat (?nbTimed - 1))))"
      by (simp add: newRefTime_def)
    then show ?thesis
      by (simp only: if_P [OF True])
  qed
  from advance12_ref [OF this, of ?data "0x15"] obtain finishT where
    ft: "advanceTimePast (timestampAt ?data 0x15) ?last TWELVE_HOURS = Some finishT"
    by auto
  have res: "parseSi5 message (Finite zh) =
      Some \<lparr>cardNumber =
              numberToString
                (if byteAt ?data 0x06 > 0x01
                 then wordAt ?data 0x04 + byteAt ?data 0x06 * 100000 else wordAt ?data 0x04),
            cardSeries = ''SiCard 5'', startTime = startT, finishTime = finishT,
            checkTime = checkT, punchCount = ?nb, punches = ?all\<rparr>"
    using st(1) ct tl(1) ft by (simp add: parseSi5_def Let_def si5RawFinish_def)
  have "int (length ?all) = max 0 ?nb"
    using len tl(2) by (simp add: SI5_TIMED_PUNCHES_def)
  with res show ?thesis
    by (simp add: si5NbPunches_def)
qed

theorem parseSi5_punches_length_witness:
  "\<bar>0 :: int\<bar> \<le> 2 ^ 52 \<and>
   (\<exists>cd. parseSi5 si5_last_punch_untimed (Finite 0) = Some cd \<and>
      punchCount cd = 2 \<and> length (punches cd) = 2)"
proof -
  have b: "\<bar>0 :: int\<bar> \<le> 2 ^ 52"
    by simp
  have n: "byteAt (si5Data si5_last_punch_untimed) 0x17 - 1 = 2"
    by code_simp
  from parseSi5_punches_length [OF b, of si5_last_punch_untimed] n show ?thesis
    by auto
qed

text \<open>
  C6: the finish time is the raw finish time resolved against the running reference time
  as it is after the loop over the timed punches. \<open>parseSi5\<close> keeps that reference in
  \<open>refTime\<close> but does not use it for the finish time: it takes the time of the last timed
  punch and, when that punch has none, goes back to the reference the loop started from.
  On a card whose first punch is at 40000 s and whose last timed punch has no time, the
  running reference is 40000 s and the raw finish time of 1000 s resolves against it to
  44200 s; \<open>parseSi5\<close> returns 1000 s, a finish before the punch.
\<close>

theorem parseSi5_finish_reference:
  "check si5_last_punch_untimed GET_SI_CARD_5 \<and>
   map_option finishTime (parseSi5 si5_last_punch_untimed (Finite 0)) = Some (Finite 1000000) \<and>
   si5RunningRef si5_last_punch_untimed (Finite 0) = Some (Finite 40000000) \<and>
   advanceTimePast (si5RawFinish si5_last_punch_untimed) (Finite 40000000) TWELVE_HOURS
     = Some (Finite 44200000)"
  by code_simp

section \<open>Properties of the protocol driver\<close>

lemma and_exp_cases: "a AND 2 ^ n = 0 \<or> a AND 2 ^ n = 2 ^ n" for a :: "'a::len word"
proof (cases "bit a n")
  case False
  then show ?thesis by (simp add: and_exp_eq_0_iff_not_bit)
next
  case True
  have "a AND 2 ^ n = 2 ^ n"
    by (rule bit_eqI) (use True in \<open>auto simp: bit_and_iff bit_exp_iff\<close>)
  then show ?thesis ..
qed

lemma config_mask:
  "(b AND CONFIG_CHECK_MASK \<noteq> CONFIG_CHECK_MASK) \<longleftrightarrow>
     (b AND EXTENDED_PROTOCOL_MASK = 0 \<or> b AND HANDSHAKE_MODE_MASK = 0)" for b :: byte
proof -
  have 5: "CONFIG_CHECK_MASK = 5"
    by (simp add: CONFIG_CHECK_MASK_def EXTENDED_PROTOCOL_MASK_def HANDSHAKE_MODE_MASK_def)
  have "(5 :: byte) = 1 OR 4" by simp
  then have a: "b AND 5 = (b AND 1) OR (b AND 4)"
    by (simp only: bit.conj_disj_distrib)
  have b1: "b AND 1 = 0 \<or> b AND 1 = 1"
    using and_exp_cases [of b 0] by simp
  have b4: "b AND 4 = 0 \<or> b AND 4 = 4"
    using and_exp_cases [of b 2] by simp
  show ?thesis
    using b1 b4 by (auto simp: 5 a EXTENDED_PROTOCOL_MASK_def HANDSHAKE_MODE_MASK_def)
qed

lemma bitAnd_config:
  "(bitAnd x CONFIG_CHECK_MASK \<noteq> CONFIG_CHECK_MASK) \<longleftrightarrow>
     (bitAnd x EXTENDED_PROTOCOL_MASK = 0 \<or> bitAnd x HANDSHAKE_MODE_MASK = 0)"
proof (cases x)
  case None
  then show ?thesis
    by (simp add: bitAnd_def CONFIG_CHECK_MASK_def EXTENDED_PROTOCOL_MASK_def HANDSHAKE_MODE_MASK_def)
next
  case (Some b)
  then show ?thesis
    by (simp add: bitAnd_def config_mask)
qed

lemma pollAnswer_not_Error: "fst (pollAnswer d arr c) \<noteq> Inl (Error s)"
  by (auto simp: pollAnswer_def take_msg_def split: list.splits option.splits)

text \<open>
  C8: during startup, once the answer to the request for the protocol configuration has
  been received, the startup fails with the message about the extended protocol when bit
  \<open>0x01\<close> of the byte at index 6 of the answer is clear; otherwise it fails with the
  message about the handshake mode when bit \<open>0x04\<close> is clear; and when both bits are set
  it raises no configuration error (it can still fail with a timeout or an invalid
  message later on).
\<close>

theorem startup_configuration_check:
  assumes "pollAnswer (send d STARTUP_SEQUENCE) arr SET_MASTER_MODE = (Inr m1, d2, arr2)"
      and "pollAnswer (send d2 GET_PROTOCOL_CONFIGURATION) arr2 GET_SYSTEM_VALUE
             = (Inr configMsg, d4, arr4)"
  shows "(bitAnd (msgByteAt configMsg 6) 0x01 = 0 \<longrightarrow>
            fst (startup d arr)
              = Inl (Error ''Master station should be configured with extended protocol'')) \<and>
         (bitAnd (msgByteAt configMsg 6) 0x01 \<noteq> 0 \<and> bitAnd (msgByteAt configMsg 6) 0x04 = 0 \<longrightarrow>
            fst (startup d arr)
              = Inl (Error ''Master station should be configured in handshake mode (no autosend)'')) \<and>
         (bitAnd (msgByteAt configMsg 6) 0x01 \<noteq> 0 \<and> bitAnd (msgByteAt configMsg 6) 0x04 \<noteq> 0 \<longrightarrow>
            (\<forall>s. fst (startup d arr) \<noteq> Inl (Error s)))"
proof -
  let ?cpc = "msgByteAt configMsg 6"
  have ext: "bitAnd ?cpc 0x01 = 0 \<Longrightarrow> fst (startup d arr) = Inl (Error MSG_EXTENDED_PROTOCOL)"
    using assms bitAnd_config [of ?cpc]
    by (simp add: startup_def Let_def EXTENDED_PROTOCOL_MASK_def)
  have hs: "bitAnd ?cpc 0x01 \<noteq> 0 \<Longrightarrow> bitAnd ?cpc 0x04 = 0
      \<Longrightarrow> fst (startup d arr) = Inl (Error MSG_HANDSHAKE_MODE)"
    using assms bitAnd_config [of ?cpc]
    by (simp add: startup_def Let_def EXTENDED_PROTOCOL_MASK_def HANDSHAKE_MODE_MASK_def)
  have ok: "fst (startup d arr) \<noteq> Inl (Error s)"
    if "bitAnd ?cpc 0x01 \<noteq> 0" "bitAnd ?cpc 0x04 \<noteq> 0" for s
  proof -
    have pass: "\<not> bitAnd ?cpc CONFIG_CHECK_MASK \<noteq> CONFIG_CHECK_MASK"
      using that bitAnd_config [of ?cpc]
      by (simp add: EXTENDED_PROTOCOL_MASK_def HANDSHAKE_MODE_MASK_def)
    obtain r d6 arr6 where p3:
      "pollAnswer (send d4 GET_CARDBLOCKS_CONFIGURATION) arr4 GET_SYSTEM_VALUE = (r, d6, arr6)"
      by (cases "pollAnswer (send d4 GET_CARDBLOCKS_CONFIGURATION) arr4 GET_SYSTEM_VALUE") auto
    have "r \<noteq> Inl (Error s)"
      using pollAnswer_not_Error [of "send d4 GET_CARDBLOCKS_CONFIGURATION" arr4 GET_SYSTEM_VALUE s] p3
      by simp
    then show ?thesis
      using assms pass p3 by (cases r) (simp_all add: startup_def Let_def)
  qed
  show ?thesis
    using ext hs ok by (simp add: MSG_EXTENDED_PROTOCOL_def MSG_HANDSHAKE_MODE_def)
qed

theorem startup_configuration_check_witness:
  "fst (startup (newSiDriver (Finite 0)) [Some startup_answer, Some no_ext_protocol_answer])
     = Inl (Error ''Master station should be configured with extended protocol'') \<and>
   fst (startup (newSiDriver (Finite 0)) [Some startup_answer, Some no_handshake_answer])
     = Inl (Error ''Master station should be configured in handshake mode (no autosend)'') \<and>
   (\<forall>s. fst (startup (newSiDriver (Finite 0)) [Some startup_answer, Some ok_ext_protocol_answer])
     \<noteq> Inl (Error s))"
proof -
  let ?d1 = "send (newSiDriver (Finite 0)) STARTUP_SEQUENCE"
  let ?d3 = "send ?d1 GET_PROTOCOL_CONFIGURATION"
  have a: "pollAnswer ?d1 [Some startup_answer, Some no_ext_protocol_answer] SET_MASTER_MODE
        = (Inr startup_answer, ?d1, [Some no_ext_protocol_answer])"
    by code_simp
  have a': "pollAnswer ?d3 [Some no_ext_protocol_answer] GET_SYSTEM_VALUE
        = (Inr no_ext_protocol_answer, ?d3, [])"
    by code_simp
  have a'': "bitAnd (msgByteAt no_ext_protocol_answer 6) 0x01 = 0"
    by code_simp
  have b: "pollAnswer ?d1 [Some startup_answer, Some no_handshake_answer] SET_MASTER_MODE
        = (Inr startup_answer, ?d1, [Some no_handshake_answer])"
    by code_simp
  have b': "pollAnswer ?d3 [Some no_handshake_answer] GET_SYSTEM_VALUE
        = (Inr no_handshake_answer, ?d3, [])"
    by code_simp
  have b'': "bitAnd (msgByteAt no_handshake_answer 6) 0x01 \<noteq> 0"
    "bitAnd (msgByteAt no_handshake_answer 6) 0x04 = 0"
    by code_simp+
  have c: "pollAnswer ?d1 [Some startup_answer, Some ok_ext_protocol_answer] SET_MASTER_MODE
        = (Inr startup_answer, ?d1, [Some ok_ext_protocol_answer])"
    by code_simp
  have c': "pollAnswer ?d3 [Some ok_ext_protocol_answer] GET_SYSTEM_VALUE
        = (Inr ok_ext_protocol_answer, ?d3, [])"
    by code_simp
  have c'': "bitAnd (msgByteAt ok_ext_protocol_answer 6) 0x01 \<noteq> 0"
    "bitAnd (msgByteAt ok_ext_protocol_answer 6) 0x04 \<noteq> 0"
    by code_simp+
  show ?thesis
    using startup_configuration_check [OF a a'] a''
      startup_configuration_check [OF b b'] b''
      startup_configuration_check [OF c c'] c''
    by simp
qed

text \<open>
  C4, as stated: one chunk that holds two complete well-formed frames back to back, fed to
  an empty accumulator, has both frames pushed onto the message queue, in order. The
  accumulator dispatches once, everything it holds: the queue receives one message, the
  two frames joined.
\<close>

theorem handleSerialData_two_frames_counterexample:
  "valid startup_answer \<and> valid ok_ext_protocol_answer \<and>
   length (sequence startup_answer) = expectedTotal (sequence startup_answer) \<and>
   length (sequence ok_ext_protocol_answer) = expectedTotal (sequence ok_ext_protocol_answer) \<and>
   messageQueue (handleSerialData (newSiDriver (Finite 0)) 1000
       (sequence startup_answer @ sequence ok_ext_protocol_answer))
     = \<lparr>queue = [SiMessage (sequence startup_answer @ sequence ok_ext_protocol_answer)],
        waiters = 0, resolved = []\<rparr> \<and>
   messageQueue (handleSerialData (newSiDriver (Finite 0)) 1000
       (sequence startup_answer @ sequence ok_ext_protocol_answer))
     \<noteq> push (push (messageQueue (newSiDriver (Finite 0))) startup_answer) ok_ext_protocol_answer"
  by code_simp

text \<open>
  C4, amended: when a chunk that starts with a complete multi-byte frame, that is, a frame
  whose length is its length byte (the byte at index 2) plus 6, of at most 139 bytes,
  followed by any further bytes (a second frame, for one), is fed to an empty accumulator,
  exactly one message is pushed onto the message queue: the whole chunk, cut at 139 bytes.
  The accumulator is empty afterwards.
\<close>

theorem handleSerialData_complete_frame:
  assumes empty: "accSize d = 0"
      and buf: "length (accBuffer d) = 139"
      and complete: "length f1 = expectedTotal f1"
      and fits: "length f1 \<le> 139"
  shows "messageQueue (handleSerialData d now (f1 @ f2))
           = push (messageQueue d) (SiMessage (take 139 (f1 @ f2))) \<and>
         accSize (handleSerialData d now (f1 @ f2)) = 0"
proof -
  let ?chunk = "f1 @ f2"
  let ?n = "min (length ?chunk) 139"
  let ?buf = "take ?n ?chunk @ drop ?n (accBuffer d)"
  have len6: "6 \<le> length f1"
    using complete by (simp add: expectedTotal_def)
  have n: "length f1 \<le> ?n"
    using fits by simp
  have copy: "bufferCopy ?chunk (accBuffer d) 0 0 ?n = ?buf"
    using buf by (auto simp add: bufferCopy_def subarray_def Let_def min_def)
  have b2: "bufAt ?buf 2 = bufAt f1 2"
    using len6 n by (auto simp add: bufAt_def nth_append)
  have total: "unat (bufAt ?buf 2) + 6 \<le> ?n"
    using n complete by (simp only: b2) (simp add: expectedTotal_def)
  have sub: "subarray ?buf 0 ?n = take 139 ?chunk"
    by (simp add: subarray_def min_def)
  have n1: "?n \<noteq> 1" "3 \<le> ?n"
    using len6 n by simp_all
  show ?thesis
    using empty copy total sub n1
    by (simp add: handleSerialData_def dispatchMessage_def log_def Let_def)
qed

theorem handleSerialData_complete_frame_witness:
  "messageQueue (handleSerialData (newSiDriver (Finite 0)) 1000
       (sequence startup_answer @ sequence ok_ext_protocol_answer))
     = push (messageQueue (newSiDriver (Finite 0)))
         (SiMessage (take 139 (sequence startup_answer @ sequence ok_ext_protocol_answer))) \<and>
   accSize (handleSerialData (newSiDriver (Finite 0)) 1000
       (sequence startup_answer @ sequence ok_ext_protocol_answer)) = 0"
proof -
  have 1: "accSize (newSiDriver (Finite 0)) = 0"
    by (simp add: newSiDriver_def)
  have 2: "length (accBuffer (newSiDriver (Finite 0))) = 139"
    by (simp add: newSiDriver_def)
  have 3: "length (sequence startup_answer) = expectedTotal (sequence startup_answer)"
    by code_simp
  have 4: "length (sequence startup_answer) \<le> 139"
    by (simp add: startup_answer_def)
  show ?thesis
    by (rule handleSerialData_complete_frame [OF 1 2 3 4])
qed

section \<open>Properties of the course validator\<close>

lemma arrayIncludes_iff: "arrayIncludes expected c \<longleftrightarrow> c \<in> set expected"
  by (simp add: arrayIncludes_def)

lemma findExtraLoop_filter:
  "findExtraLoop expected ps extras
     = extras @ filter (\<lambda>c. c \<notin> set expected) (map code ps)"
  by (induction ps arbitrary: extras) (simp_all add: arrayIncludes_iff)

lemma relevantLoop_filter:
  "relevantLoop expected ps rel = rel @ filter (\<lambda>p. code p \<in> set expected) ps"
  by (induction ps arbitrary: rel) (simp_all add: arrayIncludes_iff)

lemma traceLoop_length:
  "traceLoop e rel M tc i j res = (i', j', res') \<Longrightarrow> i \<le> length e \<Longrightarrow> length res = i
     \<Longrightarrow> length res' = i' \<and> i' \<le> length e"
proof (induction e rel M tc i j res rule: traceLoop.induct)
  case (1 e rel M tc i j res)
  note run = "1.prems"(1) and inv = "1.prems"(2,3)
  show ?case
  proof (cases "i < length e \<and> j < length rel")
    case False
    with run inv show ?thesis
      by (simp add: traceLoop.simps)
  next
    case inb: True
    show ?thesis
    proof (cases "cell M (i + 1) (j + 1) = cell M i j")
      case True
      with inb run
      have "traceLoop e rel M tc (i + 1) (j + 1) (res @ [okResult (e ! i) (rel ! j)])
          = (i', j', res')"
        by (subst (asm) traceLoop.simps) simp
      with "1.IH"(1) inb True inv show ?thesis
        by simp
    next
      case ne: False
      show ?thesis
      proof (cases "existsCodeFrom (e ! i) rel (j + 1)")
        case False
        with inb ne run
        have "traceLoop e rel M tc (i + 1) j (res @ [pmResult (e ! i)]) = (i', j', res')"
          by (subst (asm) traceLoop.simps) simp
        with "1.IH"(2) inb ne False inv show ?thesis
          by simp
      next
        case ex: True
        show ?thesis
        proof (cases "cell M i (j + 1) > tc")
          case True
          with inb ne ex run
          have "traceLoop e rel M tc (i + 1) j (res @ [pmResult (e ! i)]) = (i', j', res')"
            by (subst (asm) traceLoop.simps) simp
          with "1.IH"(3) inb ne ex True inv show ?thesis
            by simp
        next
          case False
          with inb ne ex run
          have "traceLoop e rel M tc i (j + 1) res = (i', j', res')"
            by (subst (asm) traceLoop.simps) simp
          with "1.IH"(4) inb ne ex False inv show ?thesis
            by simp
        qed
      qed
    qed
  qed
qed

lemma remainingLoop_length:
  "i \<le> length e \<Longrightarrow> length (remainingLoop e i res) = length res + (length e - i)"
proof (induction e i res rule: remainingLoop.induct)
  case (1 e i res)
  show ?case
  proof (cases "i < length e")
    case True
    with "1.IH" show ?thesis
      by (subst remainingLoop.simps) simp
  next
    case False
    with "1.prems" show ?thesis
      by (subst remainingLoop.simps) simp
  qed
qed

lemma scoreMap_length:
  "length (scoreMap ps cs used res) = length res + length cs"
  by (induction cs arbitrary: used res) (simp_all split: option.splits)

text \<open>
  C1: for every course and every list of punches, the result of \<open>validateInline\<close> and the
  result of \<open>validateScoreO\<close> have one control result for each control of the course, a
  \<open>missingCount\<close> that is the number of control results that are not found, \<open>allCorrect\<close>
  exactly when \<open>missingCount\<close> is 0, and as \<open>extraControls\<close> the codes of the punches that
  do not occur among the controls of the course, in the order of the punches.
\<close>

theorem validation_result_invariants:
  "length (controlResults (validateInline crs ps)) = length (controls crs) \<and>
   missingCount (validateInline crs ps)
     = length (filter (\<lambda>r. \<not> found r) (controlResults (validateInline crs ps))) \<and>
   allCorrect (validateInline crs ps) = (missingCount (validateInline crs ps) = 0) \<and>
   extraControls (validateInline crs ps)
     = filter (\<lambda>c. c \<notin> set (controls crs)) (map code ps) \<and>
   length (controlResults (validateScoreO crs ps)) = length (controls crs) \<and>
   missingCount (validateScoreO crs ps)
     = length (filter (\<lambda>r. \<not> found r) (controlResults (validateScoreO crs ps))) \<and>
   allCorrect (validateScoreO crs ps) = (missingCount (validateScoreO crs ps) = 0) \<and>
   extraControls (validateScoreO crs ps)
     = filter (\<lambda>c. c \<notin> set (controls crs)) (map code ps)"
proof -
  let ?e = "controls crs"
  let ?rel = "relevantLoop ?e ps []"
  let ?M = "buildMatrix ?e ?rel"
  obtain i j traced where tr:
    "traceLoop ?e ?rel ?M (cell ?M (length ?e) (length ?rel)) 0 0 [] = (i, j, traced)"
    by (cases "traceLoop ?e ?rel ?M (cell ?M (length ?e) (length ?rel)) 0 0 []") auto
  from traceLoop_length [OF tr] have i: "length traced = i" "i \<le> length ?e"
    by simp_all
  have inl: "controlResults (validateInline crs ps) = remainingLoop ?e i traced"
    using tr by (simp add: validateInline_def Let_def)
  have 1: "length (controlResults (validateInline crs ps)) = length ?e"
    using i by (simp add: inl remainingLoop_length)
  have 2: "missingCount (validateInline crs ps)
     = length (filter (\<lambda>r. \<not> found r) (controlResults (validateInline crs ps)))"
    using tr by (simp add: validateInline_def Let_def)
  have 3: "allCorrect (validateInline crs ps) = (missingCount (validateInline crs ps) = 0)"
    using tr by (simp add: validateInline_def Let_def)
  have 4: "extraControls (validateInline crs ps)
     = filter (\<lambda>c. c \<notin> set ?e) (map code ps)"
    using tr by (simp add: validateInline_def Let_def findExtraControls_def findExtraLoop_filter)
  have 5: "length (controlResults (validateScoreO crs ps)) = length ?e"
    by (simp add: validateScoreO_def Let_def scoreMap_length)
  have 6: "missingCount (validateScoreO crs ps)
     = length (filter (\<lambda>r. \<not> found r) (controlResults (validateScoreO crs ps)))"
    by (simp add: validateScoreO_def Let_def)
  have 7: "allCorrect (validateScoreO crs ps) = (missingCount (validateScoreO crs ps) = 0)"
    by (simp add: validateScoreO_def Let_def)
  have 8: "extraControls (validateScoreO crs ps)
     = filter (\<lambda>c. c \<notin> set ?e) (map code ps)"
    by (simp add: validateScoreO_def Let_def findExtraControls_def findExtraLoop_filter)
  from 1 2 3 4 5 6 7 8 show ?thesis
    by blast
qed

lemma length_setCell: "length (setCell M i j v) = length M"
  by (simp add: setCell_def)

lemma length_row_setCell: "length (setCell M i j v ! r) = length (M ! r)"
  by (cases "i < length M") (auto simp: setCell_def nth_list_update list_update_beyond)

lemma setCell_other_row: "r \<noteq> i \<Longrightarrow> setCell M i j v ! r = M ! r"
  by (simp add: setCell_def)

lemma cell_setCell:
  "i < length M \<Longrightarrow> j < length (M ! i) \<Longrightarrow>
     cell (setCell M i j v) i' j' = (if i' = i \<and> j' = j then v else cell M i' j')"
  by (auto simp: cell_def setCell_def nth_list_update)

lemma initRows_eq:
  "i \<le> m + 1 \<Longrightarrow>
     initRows m n i M = M @ map (\<lambda>k. (replicate (n + 1) 0)[0 := k]) [i..<m + 1]"
proof (induction m n i M rule: initRows.induct)
  case (1 m n i M)
  show ?case
  proof (cases "i \<le> m")
    case True
    then have "[i..<m + 1] = i # [i + 1..<m + 1]"
      by (simp add: upt_conv_Cons)
    with True "1.IH" show ?thesis
      by (subst initRows.simps) simp
  next
    case False
    with "1.prems" have "i = m + 1" by simp
    then show ?thesis
      by (subst initRows.simps) simp
  qed
qed

lemma initRows_dims:
  "length (initRows m n 0 []) = m + 1"
  "r \<le> m \<Longrightarrow> length (initRows m n 0 [] ! r) = n + 1"
  "cell (initRows m n 0 []) 0 0 = 0"
  by (simp_all add: initRows_eq cell_def nth_append del: upt_Suc)

lemma initColumns_dims:
  "length (initColumns n j M) = length M \<and>
   (\<forall>r. length (initColumns n j M ! r) = length (M ! r))"
proof (induction n j M rule: initColumns.induct)
  case (1 n j M)
  show ?case
  proof (cases "j \<le> n")
    case True
    with "1.IH" show ?thesis
      by (subst (1 2) initColumns.simps) (simp add: length_setCell length_row_setCell)
  next
    case False
    then show ?thesis
      by (subst (1 2) initColumns.simps) simp
  qed
qed

lemma initColumns_origin:
  "0 < length M \<Longrightarrow> 0 < length (M ! 0) \<Longrightarrow> cell M 0 0 = 0 \<Longrightarrow> cell (initColumns n j M) 0 0 = 0"
proof (induction n j M rule: initColumns.induct)
  case (1 n j M)
  show ?case
  proof (cases "j \<le> n")
    case True
    have "cell (setCell M 0 j j) 0 0 = 0"
      using "1.prems"
      by (cases "j < length (M ! 0)") (auto simp: cell_def setCell_def nth_list_update list_update_beyond)
    with True "1.IH" "1.prems" show ?thesis
      by (subst initColumns.simps) (simp add: length_setCell length_row_setCell)
  next
    case False
    with "1.prems" show ?thesis
      by (subst initColumns.simps) simp
  qed
qed


lemma fillCells_frame:
  "length (fillCells e rel i j M) = length M \<and>
   (\<forall>r. length (fillCells e rel i j M ! r) = length (M ! r)) \<and>
   (\<forall>r. r \<noteq> i + 1 \<longrightarrow> fillCells e rel i j M ! r = M ! r) \<and>
   (i + 1 < length M \<longrightarrow> (\<forall>c \<le> j. cell (fillCells e rel i j M) (i + 1) c = cell M (i + 1) c))"
proof (induction e rel i j M rule: fillCells.induct)
  case (1 e rel i j M)
  show ?case
  proof (cases "j < length rel")
    case False
    then show ?thesis
      by (subst (1 2 3 4) fillCells.simps) simp
  next
    case True
    define v where "v = min (min (1 + cell M (i + 1) j) (1 + cell M i (j + 1)))
        ((if e ! i = code (rel ! j) then 0 else 1) + cell M i j)"
    let ?M1 = "setCell M (i + 1) (j + 1) v"
    have step: "fillCells e rel i j M = fillCells e rel i (j + 1) ?M1"
      using True by (subst fillCells.simps) (simp add: Let_def v_def)
    from "1.IH" [OF True refl v_def]
    have ih: "length (fillCells e rel i (j + 1) ?M1) = length ?M1"
      "\<And>r. length (fillCells e rel i (j + 1) ?M1 ! r) = length (?M1 ! r)"
      "\<And>r. r \<noteq> i + 1 \<Longrightarrow> fillCells e rel i (j + 1) ?M1 ! r = ?M1 ! r"
      "\<And>c. i + 1 < length ?M1 \<Longrightarrow> c \<le> j + 1 \<Longrightarrow>
          cell (fillCells e rel i (j + 1) ?M1) (i + 1) c = cell ?M1 (i + 1) c"
      by simp_all
    have old: "cell ?M1 (i + 1) c = cell M (i + 1) c" if "c \<le> j" for c
    proof (cases "i + 1 < length M \<and> j + 1 < length (M ! (i + 1))")
      case True
      with that show ?thesis by (simp add: cell_setCell)
    next
      case False
      then show ?thesis
        by (auto simp: cell_def setCell_def list_update_beyond)
    qed
    show ?thesis
      using ih old
      by (simp add: step length_setCell length_row_setCell setCell_other_row)
  qed
qed

lemma fillCells_diagonal:
  assumes "i + 1 < length M" and "\<forall>r. r < length M \<longrightarrow> length (M ! r) = length rel + 1"
      and "i < length rel" and "e ! i = code (rel ! i)" and "cell M i i = 0" and "j \<le> i"
  shows "cell (fillCells e rel i j M) (i + 1) (i + 1) = 0"
  using assms
proof (induction e rel i j M rule: fillCells.induct)
  case (1 e rel i j M)
  have inb: "j < length rel"
    using "1.prems" by simp
  define v where "v = min (min (1 + cell M (i + 1) j) (1 + cell M i (j + 1)))
      ((if e ! i = code (rel ! j) then 0 else 1) + cell M i j)"
  let ?M1 = "setCell M (i + 1) (j + 1) v"
  have step: "fillCells e rel i j M = fillCells e rel i (j + 1) ?M1"
    using inb by (subst fillCells.simps) (simp add: Let_def v_def)
  have rowlen: "j + 1 < length (M ! (i + 1))"
    using "1.prems" inb by simp
  show ?case
  proof (cases "j = i")
    case True
    with "1.prems" have "v = 0"
      by (simp add: v_def)
    then have "cell ?M1 (i + 1) (i + 1) = 0"
      using "1.prems"(1) rowlen True by (simp add: cell_setCell)
    moreover have "cell (fillCells e rel i (j + 1) ?M1) (i + 1) (i + 1) = cell ?M1 (i + 1) (i + 1)"
      using fillCells_frame [of e rel i "j + 1" ?M1] "1.prems"(1) True
      by (simp add: length_setCell)
    ultimately show ?thesis
      by (simp add: step)
  next
    case False
    with "1.prems" have lt: "j + 1 \<le> i" by simp
    have "cell ?M1 i i = 0"
      using "1.prems" by (simp add: cell_def setCell_other_row)
    with "1.IH" [OF inb refl v_def] "1.prems" lt show ?thesis
      by (simp add: step length_setCell length_row_setCell)
  qed
qed

lemma fillRows_diagonal:
  assumes "length M = length e + 1"
      and "\<forall>r. r < length M \<longrightarrow> length (M ! r) = length rel + 1"
      and "length rel = length e" and "\<forall>t < length e. e ! t = code (rel ! t)"
      and "\<forall>t \<le> i. cell M t t = 0" and "i \<le> length e"
  shows "\<forall>t \<le> length e. cell (fillRows e rel i M) t t = 0"
  using assms
proof (induction e rel i M rule: fillRows.induct)
  case (1 e rel i M)
  show ?case
  proof (cases "i < length e")
    case False
    with "1.prems" show ?thesis
      by (subst fillRows.simps) simp
  next
    case True
    let ?M1 = "fillCells e rel i 0 M"
    note frame = fillCells_frame [of e rel i 0 M]
    have new: "cell ?M1 (i + 1) (i + 1) = 0"
      using "1.prems" True by (intro fillCells_diagonal) simp_all
    have kept: "cell ?M1 t t = 0" if "t \<le> i" for t
      using that frame "1.prems" by (simp add: cell_def)
    have diag: "\<forall>t \<le> i + 1. cell ?M1 t t = 0"
    proof (intro allI impI)
      fix t assume "t \<le> i + 1"
      then consider "t \<le> i" | "t = i + 1" by linarith
      then show "cell ?M1 t t = 0"
        using new kept by cases simp_all
    qed
    have "\<forall>t \<le> length e. cell (fillRows e rel (i + 1) ?M1) t t = 0"
      using "1.IH" [OF True] "1.prems" frame diag True by simp
    then show ?thesis
      using True by (subst fillRows.simps) simp
  qed
qed

lemma buildMatrix_diagonal:
  assumes "map code rel = e"
  shows "\<forall>t \<le> length e. cell (buildMatrix e rel) t t = 0"
proof -
  let ?m = "length e" and ?n = "length rel"
  let ?M0 = "initColumns ?n 0 (initRows ?m ?n 0 [])"
  have len: "?n = ?m"
    by (simp add: assms [symmetric])
  have codes: "\<forall>t < ?m. e ! t = code (rel ! t)"
    by (simp add: assms [symmetric])
  have dims: "length ?M0 = ?m + 1" "\<forall>r. r < length ?M0 \<longrightarrow> length (?M0 ! r) = ?n + 1"
    using initColumns_dims [of ?n 0 "initRows ?m ?n 0 []"]
    by (simp_all add: initRows_dims)
  have origin: "cell ?M0 0 0 = 0"
    by (rule initColumns_origin) (simp_all add: initRows_dims)
  have "\<forall>t \<le> ?m. cell (fillRows e rel 0 ?M0) t t = 0"
    using dims len codes origin by (intro fillRows_diagonal) simp_all
  then show ?thesis
    by (simp add: buildMatrix_def Let_def)
qed


lemma traceLoop_diagonal:
  assumes diag: "\<forall>t \<le> length e. cell M t t = 0" and len: "length rel = length e"
  shows "i \<le> length e \<Longrightarrow>
     traceLoop e rel M tc i i res
       = (length e, length e, res @ map (\<lambda>(c, p). okResult c p) (zip (drop i e) (drop i rel)))"
proof (induction "length e - i" arbitrary: i res)
  case 0
  then have "i = length e" by simp
  then show ?case
    using len by (subst traceLoop.simps) simp
next
  case (Suc k)
  then have i: "i < length e" by simp
  have cells: "cell M (i + 1) (i + 1) = cell M i i"
    using diag i by simp
  have "traceLoop e rel M tc i i res
      = traceLoop e rel M tc (i + 1) (i + 1) (res @ [okResult (e ! i) (rel ! i)])"
    using i len cells by (subst traceLoop.simps) simp
  also have "\<dots> = (length e, length e,
      (res @ [okResult (e ! i) (rel ! i)])
        @ map (\<lambda>(c, p). okResult c p) (zip (drop (i + 1) e) (drop (i + 1) rel)))"
    using Suc.hyps(2) i by (intro Suc.hyps(1)) simp_all
  also have "(res @ [okResult (e ! i) (rel ! i)])
        @ map (\<lambda>(c, p). okResult c p) (zip (drop (i + 1) e) (drop (i + 1) rel))
      = res @ map (\<lambda>(c, p). okResult c p) (zip (drop i e) (drop i rel))"
    using i len by (simp add: Cons_nth_drop_Suc [symmetric])
  finally show ?case .
qed

lemma validateInline_own_codes_result:
  assumes "map code ps = controls crs"
  shows "validateInline crs ps =
           \<lparr>course = crs,
            controlResults = map (\<lambda>(c, p). okResult c p) (zip (controls crs) ps),
            missingCount = 0,
            extraControls = [],
            allCorrect = True\<rparr>"
proof -
  let ?e = "controls crs"
  let ?R = "map (\<lambda>(c, p). okResult c p) (zip ?e ps)"
  have rel: "relevantLoop ?e ps [] = ps"
  proof -
    have "\<forall>p \<in> set ps. code p \<in> set ?e"
      by (auto simp: assms [symmetric])
    then show ?thesis
      by (simp add: relevantLoop_filter)
  qed
  have len: "length ps = length ?e"
    by (simp add: assms [symmetric])
  let ?M = "buildMatrix ?e ps"
  have tr: "traceLoop ?e ps ?M (cell ?M (length ?e) (length ps)) 0 0 []
      = (length ?e, length ?e, ?R)"
    using traceLoop_diagonal [OF buildMatrix_diagonal [OF assms] len, of 0
        "cell ?M (length ?e) (length ps)" "[]"]
    by simp
  have rem: "remainingLoop ?e (length ?e) ?R = ?R"
    by (subst remainingLoop.simps) simp
  have extras: "findExtraControls ?e ps = []"
    by (simp add: findExtraControls_def findExtraLoop_filter assms)
  have missing: "filter (\<lambda>r. \<not> found r) ?R = []"
    by (auto simp: filter_empty_conv okResult_def)
  show ?thesis
    unfolding validateInline_def Let_def rel tr prod.case rem extras missing
    by simp
qed

text \<open>
  C7: validating an inline course with at least one control against punches whose codes
  are the controls of the course, in order, with any timestamps, gives \<open>allCorrect\<close>, no
  extra controls, and for every position the timestamp of the punch at that position.
\<close>

theorem validateInline_own_codes:
  assumes "isInline crs" and "controls crs \<noteq> []" and "map code ps = controls crs"
  shows "allCorrect (validateInline crs ps) \<and>
         extraControls (validateInline crs ps) = [] \<and>
         length (controlResults (validateInline crs ps)) = length ps \<and>
         (\<forall>i < length ps.
            resultTimestampMs (controlResults (validateInline crs ps) ! i) = timestampMs (ps ! i))"
proof -
  note r = validateInline_own_codes_result [OF assms(3)]
  have len: "length ps = length (controls crs)"
    by (simp add: assms(3) [symmetric])
  have "length (controlResults (validateInline crs ps)) = length ps"
    using len by (simp add: r)
  moreover have "resultTimestampMs (controlResults (validateInline crs ps) ! i) = timestampMs (ps ! i)"
    if "i < length ps" for i
    using that len by (simp add: r okResult_def)
  ultimately show ?thesis
    by (simp add: r)
qed

theorem validateInline_own_codes_witness:
  "isInline test_course \<and> controls test_course \<noteq> [] \<and>
   map code test_punches = controls test_course \<and>
   allCorrect (validateInline test_course test_punches) \<and>
   extraControls (validateInline test_course test_punches) = [] \<and>
   map resultTimestampMs (controlResults (validateInline test_course test_punches))
     = [Finite 1000, Finite 2000, Finite 3000, Finite 4000, Finite 5000]"
proof -
  let ?r = "validateInline test_course test_punches"
  have 1: "isInline test_course"
    by (simp add: test_course_def)
  have 2: "controls test_course \<noteq> []"
    by (simp add: test_course_def)
  have 3: "map code test_punches = controls test_course"
    by (simp add: test_course_def test_punches_def)
  from validateInline_own_codes [OF 1 2 3]
  have ok: "allCorrect ?r" "extraControls ?r = []"
    and len: "length (controlResults ?r) = length test_punches"
    and ts: "\<And>i. i < length test_punches \<Longrightarrow>
        resultTimestampMs (controlResults ?r ! i) = timestampMs (test_punches ! i)"
    by simp_all
  have "map resultTimestampMs (controlResults ?r) = map timestampMs test_punches"
    by (rule nth_equalityI) (simp_all add: len ts)
  then have "map resultTimestampMs (controlResults ?r)
      = [Finite 1000, Finite 2000, Finite 3000, Finite 4000, Finite 5000]"
    by (simp add: test_punches_def)
  with 1 2 3 ok show ?thesis
    by simp
qed

end
